theory Spec2Isabelle
  imports Complex_Main "HOL-Library.Sublist" "HOL-Library.Log_Nat"
begin

section \<open>Strings\<close>

text \<open>
  A Python \<open>str\<close> is a sequence of code points. The model is \<open>string\<close>, one \<open>char\<close> per
  code point, for code points below 256; the classifications below (\<open>str.lower\<close>,
  \<open>str.isspace\<close>, the line boundaries of \<open>str.splitlines\<close>) are Python's on that range.
\<close>

definition lower_char :: "char \<Rightarrow> char" where
  "lower_char c =
     (let n = (of_char c :: nat) in
      if (65 \<le> n \<and> n \<le> 90) \<or> (192 \<le> n \<and> n \<le> 222 \<and> n \<noteq> 215)
      then char_of (n + 32) else c)"

definition lower :: "string \<Rightarrow> string" where
  "lower s = map lower_char s"

text \<open>\<open>s.startswith(p)\<close>.\<close>

definition startswith :: "string \<Rightarrow> string \<Rightarrow> bool" where
  "startswith p s = (take (length p) s = p)"

text \<open>\<open>k in s\<close> on strings: \<open>k\<close> occurs in \<open>s\<close> as a contiguous substring.\<close>

fun str_in :: "string \<Rightarrow> string \<Rightarrow> bool" where
  "str_in k [] = (k = [])"
| "str_in k (c # cs) = (startswith k (c # cs) \<or> str_in k cs)"

section \<open>The rule catalogue of \<open>generate_parallelization_recommendations\<close>\<close>

record verdict =
  parallelizable :: "bool option"
  complexity :: string
  pattern :: string
  platforms :: "string list"
  strategy :: string
  justification :: string

text \<open>The superscripts of the complexity labels are the code points 0xB3 and 0xB2.\<close>

definition rec_matrix_multiply :: verdict where
  "rec_matrix_multiply = \<lparr>
     parallelizable = Some True,
     complexity = ''O(n'' @ [CHR 0xB3] @ '')'',
     pattern = ''Triple nested loops with independent (i,j) iterations'',
     platforms = [''OpenMP'', ''CUDA''],
     strategy = ''Block decomposition, GPU thread blocks for (i,j) pairs'',
     justification = ''Highly parallel, regular memory access, compute-intensive, no dependencies between result elements'' \<rparr>"

definition rec_blocked_matrix_multiply :: verdict where
  "rec_blocked_matrix_multiply = \<lparr>
     parallelizable = Some True,
     complexity = ''O(n'' @ [CHR 0xB3] @ '')'',
     pattern = ''Cache-blocked nested loops with independent blocks'',
     platforms = [''OpenMP''],
     strategy = ''Parallel execution of independent blocks using OpenMP collapse directive'',
     justification = ''Cache-friendly algorithm excellent for CPU parallelization, maintains locality'' \<rparr>"

definition rec_matrix_vector_multiply :: verdict where
  "rec_matrix_vector_multiply = \<lparr>
     parallelizable = Some True,
     complexity = ''O(n'' @ [CHR 0xB2] @ '')'',
     pattern = ''Matrix rows processed independently'',
     platforms = [''OpenMP'', ''CUDA''],
     strategy = ''Parallel loop over rows, or GPU threads per output element'',
     justification = ''Independent row computations, good memory locality, moderate parallelism'' \<rparr>"

definition rec_data_preprocessing :: verdict where
  "rec_data_preprocessing = \<lparr>
     parallelizable = Some True,
     complexity = ''O(n)'',
     pattern = ''Independent element-wise mathematical operations'',
     platforms = [''OpenMP''],
     strategy = ''SIMD vectorization with parallel for directive'',
     justification = ''Element-wise operations (sin, cos, sqrt), no dependencies, SIMD-friendly'' \<rparr>"

definition rec_data_postprocessing :: verdict where
  "rec_data_postprocessing = \<lparr>
     parallelizable = Some False,
     complexity = ''O(n)'',
     pattern = ''Sequential dependencies between array elements'',
     platforms = [''Sequential only''],
     strategy = ''Limited parallelization due to dependency chain'',
     justification = ''Each element depends on previous element (data[i] += data[i-1] * 0.05)'' \<rparr>"

definition rec_vector_operations :: verdict where
  "rec_vector_operations = \<lparr>
     parallelizable = Some True,
     complexity = ''O(n)'',
     pattern = ''Element-wise vector computations'',
     platforms = [''OpenMP'', ''CUDA''],
     strategy = ''SIMD vectorization or GPU kernel launch'',
     justification = ''Embarrassingly parallel, high arithmetic intensity with sqrt, sin, cos operations'' \<rparr>"

definition rec_initialize_data :: verdict where
  "rec_initialize_data = \<lparr>
     parallelizable = Some True,
     complexity = ''O(n'' @ [CHR 0xB2] @ '')'',
     pattern = ''Independent matrix element initialization'',
     platforms = [''OpenMP''],
     strategy = ''Parallel nested loops for matrix initialization'',
     justification = ''Independent computations with trigonometric functions per element'' \<rparr>"

definition rec_calculate_checksum :: verdict where
  "rec_calculate_checksum = \<lparr>
     parallelizable = Some True,
     complexity = ''O(n'' @ [CHR 0xB2] @ '')'',
     pattern = ''Reduction operation over matrix elements'',
     platforms = [''OpenMP''],
     strategy = ''Parallel reduction with OpenMP reduction clause'',
     justification = ''Associative sum operation, perfect for parallel reduction'' \<rparr>"

definition rec_unknown :: verdict where
  "rec_unknown = \<lparr>
     parallelizable = None,
     complexity = ''Unknown'',
     pattern = ''Requires manual analysis'',
     platforms = [''Manual analysis needed''],
     strategy = ''Profile function behavior and analyze dependencies'',
     justification = ''Function characteristics need detailed examination'' \<rparr>"

text \<open>
  The dict literal \<open>recommendations\<close>. A Python dict is enumerated in insertion order, so
  the catalogue is an association list in the order of the literal.
\<close>

definition recommendations :: "(string \<times> verdict) list" where
  "recommendations =
     [(''matrix_multiply'', rec_matrix_multiply),
      (''blocked_matrix_multiply'', rec_blocked_matrix_multiply),
      (''matrix_vector_multiply'', rec_matrix_vector_multiply),
      (''data_preprocessing'', rec_data_preprocessing),
      (''data_postprocessing'', rec_data_postprocessing),
      (''vector_operations'', rec_vector_operations),
      (''initialize_data'', rec_initialize_data),
      (''calculate_checksum'', rec_calculate_checksum)]"

text \<open>
  The loop \<open>for key, rec in recommendations.items(): if key in function_name.lower():
  return rec\<close>, over any catalogue; \<open>None\<close> when the loop ends without returning.
\<close>

fun first_match :: "(string \<times> verdict) list \<Rightarrow> string \<Rightarrow> verdict option" where
  "first_match [] s = None"
| "first_match ((key, r) # rest) s = (if str_in key s then Some r else first_match rest s)"

text \<open>The chain of \<open>if\<close>/\<open>elif\<close> after the loop, and the final fallback.\<close>

definition heuristic_chain :: "string \<Rightarrow> verdict" where
  "heuristic_chain s =
     (if str_in ''multiply'' s \<or> str_in ''matmul'' s then rec_matrix_multiply
      else if str_in ''vector'' s \<and> str_in ''multiply'' s then rec_matrix_vector_multiply
      else if str_in ''preprocess'' s then rec_data_preprocessing
      else if str_in ''postprocess'' s then rec_data_postprocessing
      else if str_in ''vector'' s then rec_vector_operations
      else if str_in ''init'' s then rec_initialize_data
      else if str_in ''sum'' s \<or> str_in ''checksum'' s then rec_calculate_checksum
      else rec_unknown)"

definition generate_parallelization_recommendations :: "string \<Rightarrow> verdict" where
  "generate_parallelization_recommendations function_name =
     (case first_match recommendations (lower function_name) of
        Some r \<Rightarrow> r
      | None \<Rightarrow> heuristic_chain (lower function_name))"

section \<open>Whitespace, lines and the searchable span\<close>

text \<open>\<open>str.isspace\<close> on one code point; \<open>s.strip()\<close>; \<open>s.split()\<close> with no argument.\<close>

definition is_space :: "char \<Rightarrow> bool" where
  "is_space c = ((of_char c :: nat) \<in> {9, 10, 11, 12, 13, 28, 29, 30, 31, 32, 133, 160})"

definition strip :: "string \<Rightarrow> string" where
  "strip s = rev (dropWhile is_space (rev (dropWhile is_space s)))"

fun split_acc :: "string \<Rightarrow> string \<Rightarrow> string list" where
  "split_acc cur [] = (if cur = [] then [] else [cur])"
| "split_acc cur (c # cs) =
     (if is_space c then (if cur = [] then split_acc [] cs else cur # split_acc [] cs)
      else split_acc (cur @ [c]) cs)"

definition split_ws :: "string \<Rightarrow> string list" where
  "split_ws s = split_acc [] s"

text \<open>
  \<open>s.splitlines()\<close>: a line ends at a line boundary, carriage return followed by line feed
  is one boundary, and a final boundary opens no further line.
\<close>

definition is_linebreak :: "char \<Rightarrow> bool" where
  "is_linebreak c = ((of_char c :: nat) \<in> {10, 11, 12, 13, 28, 29, 30, 133})"

fun splitlines_acc :: "string \<Rightarrow> string \<Rightarrow> string list" where
  "splitlines_acc cur [] = (if cur = [] then [] else [cur])"
| "splitlines_acc cur [c] = (if is_linebreak c then [cur] else [cur @ [c]])"
| "splitlines_acc cur (c # d # cs) =
     (if c = CHR 0x0D \<and> d = CHR 0x0A then cur # splitlines_acc [] cs
      else if is_linebreak c then cur # splitlines_acc [] (d # cs)
      else splitlines_acc (cur @ [c]) (d # cs))"

definition splitlines :: "string \<Rightarrow> string list" where
  "splitlines s = splitlines_acc [] s"

text \<open>
  \<open>re.search(r'Flat profile:(.*?)(?=\nCall graph|$)', content, re.DOTALL)\<close>. The search
  takes the leftmost occurrence of the marker (the lookahead \<open>$\<close> holds at the end of the
  text, so that occurrence always gives a match); \<open>find_marker\<close> returns the text after
  it. Group 1 is lazy: it ends at the first position where the rest starts with a line
  feed and \<open>Call graph\<close>, or is empty, or is one final line feed (where \<open>$\<close> holds).
\<close>

fun find_marker :: "string \<Rightarrow> string \<Rightarrow> string option" where
  "find_marker m [] = (if m = [] then Some [] else None)"
| "find_marker m (c # cs) =
     (if startswith m (c # cs) then Some (drop (length m) (c # cs)) else find_marker m cs)"

fun lazy_group :: "string \<Rightarrow> string" where
  "lazy_group [] = []"
| "lazy_group (c # cs) =
     (if c # cs = [CHR 0x0A] \<or> startswith (CHR 0x0A # ''Call graph'') (c # cs) then []
      else c # lazy_group cs)"

definition flat_profile_section :: "string \<Rightarrow> string option" where
  "flat_profile_section content = map_option lazy_group (find_marker ''Flat profile:'' content)"

section \<open>Floats\<close>

text \<open>
  A Python \<open>float\<close> is an IEEE 754 binary64 value: \<open>Finite r\<close> is the finite double of
  value \<open>r\<close>, then the two infinities and \<open>nan\<close>. The two zeros are the one value
  \<open>Finite 0\<close>: they compare equal, and a division by either raises.

  \<open>round_double\<close> rounds a rational to the nearest double, ties to the even significand,
  as the conversion of a literal and every arithmetic operation do. \<open>flog2 x\<close> is the
  binary exponent of a positive \<open>x\<close>; the spacing of the doubles around \<open>x\<close> is
  \<open>quantum x\<close>, with 53 bits of significand and the subnormal range below \<open>2 powi - 1022\<close>;
  a rounded magnitude of \<open>2 powi 1024\<close> or more, one whose binary exponent is at least
  1024, overflows to an infinity.
\<close>

datatype pyfloat = Finite rat | PosInf | NegInf | NaN

definition flog2 :: "rat \<Rightarrow> int" where
  "flog2 x = (case quotient_of x of (a, b) \<Rightarrow>
      if 2 powi (bitlen a - bitlen b) \<le> x then bitlen a - bitlen b
      else bitlen a - bitlen b - 1)"

definition quantum :: "rat \<Rightarrow> rat" where
  "quantum x = 2 powi (max (flog2 x) (- 1022) - 52)"

definition round_half_even :: "rat \<Rightarrow> int" where
  "round_half_even r = (let f = \<lfloor>r\<rfloor>; d = r - of_int f in
      if d < 1 / 2 then f else if 1 / 2 < d then f + 1 else if even f then f else f + 1)"

definition round_pos :: "rat \<Rightarrow> rat" where
  "round_pos x = of_int (round_half_even (x / quantum x)) * quantum x"

definition overflow_bound :: rat where
  "overflow_bound = 2 powi 1024"

definition round_double :: "rat \<Rightarrow> pyfloat" where
  "round_double x = (if x = 0 then Finite 0
     else if 0 < x
     then (if 1024 \<le> flog2 (round_pos x) then PosInf else Finite (round_pos x))
     else (if 1024 \<le> flog2 (round_pos (- x)) then NegInf
           else Finite (- round_pos (- x))))"

text \<open>The values that rounding leaves alone: the doubles.\<close>

definition is_double :: "pyfloat \<Rightarrow> bool" where
  "is_double x = (case x of Finite v \<Rightarrow> round_double v = Finite v | PosInf \<Rightarrow> True
                  | NegInf \<Rightarrow> True | NaN \<Rightarrow> True)"

text \<open>The comparisons \<open><\<close>, \<open><=\<close>, \<open>>\<close> and \<open>>=\<close>: every comparison with \<open>nan\<close> is false.\<close>

fun py_lt :: "pyfloat \<Rightarrow> pyfloat \<Rightarrow> bool" where
  "py_lt (Finite a) (Finite b) = (a < b)"
| "py_lt (Finite a) PosInf = True"
| "py_lt NegInf (Finite b) = True"
| "py_lt NegInf PosInf = True"
| "py_lt x y = False"

fun py_le :: "pyfloat \<Rightarrow> pyfloat \<Rightarrow> bool" where
  "py_le (Finite a) (Finite b) = (a \<le> b)"
| "py_le (Finite a) PosInf = True"
| "py_le NegInf (Finite b) = True"
| "py_le NegInf PosInf = True"
| "py_le PosInf PosInf = True"
| "py_le NegInf NegInf = True"
| "py_le x y = False"

definition py_gt :: "pyfloat \<Rightarrow> pyfloat \<Rightarrow> bool" where
  "py_gt x y = py_lt y x"

definition py_ge :: "pyfloat \<Rightarrow> pyfloat \<Rightarrow> bool" where
  "py_ge x y = py_le y x"

text \<open>
  Addition, multiplication and division. A division by zero raises
  \<open>ZeroDivisionError\<close>, whatever the dividend: the result \<open>None\<close>.
\<close>

fun fadd :: "pyfloat \<Rightarrow> pyfloat \<Rightarrow> pyfloat" where
  "fadd (Finite a) (Finite b) = round_double (a + b)"
| "fadd NaN y = NaN"
| "fadd x NaN = NaN"
| "fadd PosInf NegInf = NaN"
| "fadd NegInf PosInf = NaN"
| "fadd PosInf y = PosInf"
| "fadd x PosInf = PosInf"
| "fadd NegInf y = NegInf"
| "fadd x NegInf = NegInf"

fun fmul :: "pyfloat \<Rightarrow> pyfloat \<Rightarrow> pyfloat" where
  "fmul (Finite a) (Finite b) = round_double (a * b)"
| "fmul NaN y = NaN"
| "fmul x NaN = NaN"
| "fmul (Finite a) y =
     (if a = 0 then NaN else if (0 < a) = (y = PosInf) then PosInf else NegInf)"
| "fmul x (Finite b) =
     (if b = 0 then NaN else if (0 < b) = (x = PosInf) then PosInf else NegInf)"
| "fmul x y = (if x = y then PosInf else NegInf)"

fun fdiv :: "pyfloat \<Rightarrow> pyfloat \<Rightarrow> pyfloat option" where
  "fdiv x (Finite b) =
     (if b = 0 then None
      else (case x of
              Finite a \<Rightarrow> Some (round_double (a / b))
            | PosInf \<Rightarrow> Some (if 0 < b then PosInf else NegInf)
            | NegInf \<Rightarrow> Some (if 0 < b then NegInf else PosInf)
            | NaN \<Rightarrow> Some NaN))"
| "fdiv NaN y = Some NaN"
| "fdiv x NaN = Some NaN"
| "fdiv (Finite a) y = Some (Finite 0)"
| "fdiv x y = Some NaN"

section \<open>\<open>float\<close> on a token\<close>

text \<open>
  The exceptions the row parser can raise, both caught by its \<open>except\<close> clause.
\<close>

datatype exn = ValueError | IndexError

text \<open>
  \<open>float(token)\<close> on a token without whitespace: an optional sign, then either one of the
  words \<open>inf\<close>, \<open>infinity\<close> and \<open>nan\<close> in any case of letters, or digits with an optional
  point and an optional exponent, where digits may be grouped by single underscores. The
  value of a number is the double nearest to the rational the literal denotes.
\<close>

definition is_digit :: "char \<Rightarrow> bool" where
  "is_digit c = (48 \<le> (of_char c :: nat) \<and> (of_char c :: nat) \<le> 57)"

fun digitpart :: "string \<Rightarrow> bool" where
  "digitpart [] = False"
| "digitpart [c] = is_digit c"
| "digitpart (c # d # cs) =
     (is_digit c \<and> (if d = CHR ''_'' then digitpart cs else digitpart (d # cs)))"

definition digits_val :: "string \<Rightarrow> nat" where
  "digits_val s = foldl (\<lambda>a c. 10 * a + (of_char c - 48)) 0 (filter is_digit s)"

definition split_sign :: "string \<Rightarrow> bool \<times> string" where
  "split_sign s =
     (case s of
        [] \<Rightarrow> (False, [])
      | c # cs \<Rightarrow> if c = CHR ''-'' then (True, cs) else if c = CHR ''+'' then (False, cs)
                 else (False, s))"

definition is_exp_char :: "char \<Rightarrow> bool" where
  "is_exp_char c = (c = CHR ''e'' \<or> c = CHR ''E'')"

definition py_float :: "string \<Rightarrow> exn + pyfloat" where
  "py_float s =
     (let (neg, body) = split_sign s;
          mant = takeWhile (\<lambda>c. \<not> is_exp_char c) body;
          erest = dropWhile (\<lambda>c. \<not> is_exp_char c) body;
          ip = takeWhile (\<lambda>c. c \<noteq> CHR ''.'') mant;
          frest = dropWhile (\<lambda>c. c \<noteq> CHR ''.'') mant;
          fp = drop 1 frest;
          mant_ok = (if frest = [] then digitpart ip
                     else (ip = [] \<or> digitpart ip) \<and> (fp = [] \<or> digitpart fp)
                          \<and> \<not> (ip = [] \<and> fp = []));
          (eneg, edigits) = split_sign (drop 1 erest);
          exp_ok = (erest = [] \<or> digitpart edigits);
          m = of_nat (digits_val (ip @ fp)) / 10 ^ length (filter is_digit fp);
          v = (if eneg then m / 10 ^ digits_val edigits else m * 10 ^ digits_val edigits)
      in if lower body = ''inf'' \<or> lower body = ''infinity''
         then Inr (if neg then NegInf else PosInf)
         else if lower body = ''nan'' then Inr NaN
         else if mant_ok \<and> exp_ok then Inr (round_double (if neg then - v else v))
         else Inl ValueError)"

section \<open>\<open>parse_gprof_file\<close>\<close>

record perf_record =
  name :: string
  time_percent :: pyfloat
  cumulative_seconds :: pyfloat
  self_seconds :: pyfloat
  calls :: string

text \<open>\<open>parts[i]\<close>, which raises \<open>IndexError\<close> out of range.\<close>

definition index :: "string list \<Rightarrow> nat \<Rightarrow> exn + string" where
  "index parts i = (if i < length parts then Inr (parts ! i) else Inl IndexError)"

definition bind_exn :: "exn + 'a \<Rightarrow> ('a \<Rightarrow> exn + 'b) \<Rightarrow> exn + 'b" where
  "bind_exn m f = (case m of Inl e \<Rightarrow> Inl e | Inr x \<Rightarrow> f x)"

text \<open>
  The body of the \<open>try\<close> block on the tokens of one row: \<open>Inl\<close> an exception raised,
  \<open>Inr None\<close> the \<open>continue\<close> on a negative value, \<open>Inr (Some r)\<close> the record appended.
  \<open>parts[-1]\<close> is the last token (the caller has checked that there are at least five).
\<close>

definition try_row :: "string list \<Rightarrow> exn + perf_record option" where
  "try_row parts =
     bind_exn (bind_exn (index parts 0) py_float) (\<lambda>time_percent.
     bind_exn (bind_exn (index parts 1) py_float) (\<lambda>cumulative_seconds.
     bind_exn (bind_exn (index parts 2) py_float) (\<lambda>self_seconds.
     bind_exn (index parts 3) (\<lambda>p3.
     bind_exn (if parts = [] then Inl IndexError else Inr (last parts)) (\<lambda>function_name.
       let calls = (if p3 \<noteq> ''null'' then p3 else ''0'') in
       if py_lt time_percent (Finite 0) \<or> py_lt self_seconds (Finite 0) then Inr None
       else Inr (Some \<lparr> name = function_name, time_percent = time_percent,
                        cumulative_seconds = cumulative_seconds,
                        self_seconds = self_seconds, calls = calls \<rparr>))))))"

text \<open>
  The loop over the lines of the section; the first argument is \<open>header_found\<close>. The
  result is the list \<open>functions\<close> in the order of the appends. \<open>break\<close> ends the loop, and
  an exception of the \<open>try\<close> block is caught and the loop continues.
\<close>

fun scan_lines :: "bool \<Rightarrow> string list \<Rightarrow> perf_record list" where
  "scan_lines header_found [] = []"
| "scan_lines header_found (line # rest) =
     (let stripped = strip line in
      if stripped = [] then scan_lines header_found rest
      else if \<not> header_found then
        (if startswith ''%'' stripped \<or> startswith ''time'' (lower stripped)
         then scan_lines True rest else scan_lines header_found rest)
      else if startswith ''Call graph'' stripped then []
      else if str_in ''name'' (lower stripped) \<or> startswith ''cumulative'' stripped
              \<or> startswith ''seconds'' stripped
      then scan_lines header_found rest
      else let parts = split_ws stripped in
        if length parts < 5 then scan_lines header_found rest
        else (case try_row parts of
                Inl e \<Rightarrow> scan_lines header_found rest
              | Inr None \<Rightarrow> scan_lines header_found rest
              | Inr (Some r) \<Rightarrow> r # scan_lines header_found rest))"

text \<open>
  \<open>sorted(functions, key=lambda x: x['time_percent'], reverse=True)\<close>. Python's sort
  compares keys by \<open><\<close> only, is stable, stays stable under \<open>reverse=True\<close>, and returns a
  permutation of its input whatever \<open><\<close> answers. The model is the stable insertion sort
  by descending key that asks \<open><\<close> only: each record, from the last to the first, goes in
  front of the first record whose key it is not less than. Where no key is \<open>nan\<close> this is
  the one stable descending order; with a \<open>nan\<close> key \<open><\<close> is no order, and the model
  leaves a list alone in which no key is less than the key after it, as Python's run
  detection does.
\<close>

fun insert_desc :: "perf_record \<Rightarrow> perf_record list \<Rightarrow> perf_record list" where
  "insert_desc x [] = [x]"
| "insert_desc x (y # ys) =
     (if py_lt (time_percent x) (time_percent y) then y # insert_desc x ys else x # y # ys)"

definition sorted_by_time_desc :: "perf_record list \<Rightarrow> perf_record list" where
  "sorted_by_time_desc functions = foldr insert_desc functions []"

text \<open>The function from the text of the file on: \<open>None\<close> when the search finds no match.\<close>

definition parse_gprof_text :: "string \<Rightarrow> perf_record list option" where
  "parse_gprof_text content =
     (case flat_profile_section content of
        None \<Rightarrow> None
      | Some section \<Rightarrow> Some (sorted_by_time_desc (scan_lines False (splitlines section))))"

text \<open>
  The file system is a map from paths to file contents; \<open>Path(filename).exists()\<close> is
  membership in its domain. The result is the list of lines printed and the value
  returned.
\<close>

definition parse_gprof_file ::
  "(string \<rightharpoonup> string) \<Rightarrow> string \<Rightarrow> string list \<times> perf_record list option" where
  "parse_gprof_file fs filename =
     (case fs filename of
        None \<Rightarrow> ([''Error: '' @ filename @ '' not found''], None)
      | Some content \<Rightarrow>
          (case parse_gprof_text content of
             None \<Rightarrow> ([''No flat profile found in '' @ filename], None)
           | Some functions \<Rightarrow> ([], Some functions)))"

section \<open>\<open>analyze_hotspots\<close> and the rollup of \<open>main\<close>\<close>

definition analyze_hotspots :: "perf_record list \<Rightarrow> pyfloat \<Rightarrow> perf_record list" where
  "analyze_hotspots functions threshold =
     (if functions = [] then []
      else filter (\<lambda>f. py_ge (time_percent f) threshold) functions)"

text \<open>
  The loop of \<open>main\<close> over the hotspots, on the pair
  \<open>(total_hotspot_time, parallelizable_time)\<close>, both 0 at the start;
  \<open>if rec['parallelizable']\<close> holds for \<open>True\<close> only.
\<close>

fun rollup_loop :: "pyfloat \<times> pyfloat \<Rightarrow> perf_record list \<Rightarrow> pyfloat \<times> pyfloat" where
  "rollup_loop (total_hotspot_time, parallelizable_time) [] =
     (total_hotspot_time, parallelizable_time)"
| "rollup_loop (total_hotspot_time, parallelizable_time) (hotspot # rest) =
     (let r = generate_parallelization_recommendations (name hotspot) in
      rollup_loop (fadd total_hotspot_time (time_percent hotspot),
                   if parallelizable r = Some True
                   then fadd parallelizable_time (time_percent hotspot)
                   else parallelizable_time) rest)"

text \<open>
  \<open>efficiency\<close> as \<open>main\<close> computes it; \<open>None\<close> is a \<open>ZeroDivisionError\<close> of the division.
\<close>

definition efficiency :: "pyfloat \<times> pyfloat \<Rightarrow> pyfloat option" where
  "efficiency tp =
     (case tp of (total_hotspot_time, parallelizable_time) \<Rightarrow>
        if py_gt total_hotspot_time (Finite 0)
        then (case fdiv parallelizable_time total_hotspot_time of
                None \<Rightarrow> None
              | Some q \<Rightarrow> Some (fmul q (Finite 100)))
        else Some (Finite 0))"

text \<open>
  The lines printed under \<open>PLATFORM RECOMMENDATIONS\<close>, without the box-drawing prefix of
  each line.
\<close>

definition platform_recommendation :: "pyfloat \<Rightarrow> string list" where
  "platform_recommendation parallelizable_time =
     (if py_gt parallelizable_time (Finite 50)
      then [''HIGH PARALLELIZATION POTENTIAL'',
            ''Recommended: OpenMP + CUDA (heterogeneous approach)'']
      else if py_gt parallelizable_time (Finite 20)
      then [''MODERATE PARALLELIZATION POTENTIAL'', ''Recommended: OpenMP (CPU focus)'']
      else [''LIMITED PARALLELIZATION POTENTIAL''])"

section \<open>The rows of a section, described line by line\<close>

text \<open>
  A description of what the loop of \<open>parse_gprof_file\<close> keeps, to compare with
  \<open>scan_lines\<close>. All of it is about stripped lines. The header line is the first line that
  starts with \<open>%\<close> or, in any case of letters, with \<open>time\<close>; the data region is what lies
  after it and before the first line that starts with \<open>Call graph\<close>.
\<close>

definition is_header_line :: "string \<Rightarrow> bool" where
  "is_header_line s = (startswith ''%'' s \<or> startswith ''time'' (lower s))"

definition is_header_fragment :: "string \<Rightarrow> bool" where
  "is_header_fragment s =
     (str_in ''name'' (lower s) \<or> startswith ''cumulative'' s \<or> startswith ''seconds'' s)"

definition data_region :: "string list \<Rightarrow> string list" where
  "data_region lines =
     takeWhile (\<lambda>s. \<not> startswith ''Call graph'' s)
       (drop 1 (dropWhile (\<lambda>s. \<not> is_header_line s)
          (filter (\<lambda>s. s \<noteq> []) (map strip lines))))"

text \<open>
  A row is kept when it is no header fragment, has at least five tokens, its first three
  tokens are accepted by \<open>float\<close>, and neither the first nor the third value is less than
  0 (which \<open>nan\<close>, the infinity and a negative number that rounds to zero all pass). Its
  record takes the three values, the fourth token (with \<open>null\<close> replaced by \<open>0\<close>) and the
  last token.
\<close>

definition float_ok :: "string \<Rightarrow> bool" where
  "float_ok tok = (case py_float tok of Inl e \<Rightarrow> False | Inr v \<Rightarrow> True)"

definition float_val :: "string \<Rightarrow> pyfloat" where
  "float_val tok = (case py_float tok of Inl e \<Rightarrow> Finite 0 | Inr v \<Rightarrow> v)"

definition kept_row :: "string \<Rightarrow> bool" where
  "kept_row s =
     (\<not> is_header_fragment s \<and> 5 \<le> length (split_ws s)
      \<and> float_ok (split_ws s ! 0) \<and> float_ok (split_ws s ! 1) \<and> float_ok (split_ws s ! 2)
      \<and> \<not> py_lt (float_val (split_ws s ! 0)) (Finite 0)
      \<and> \<not> py_lt (float_val (split_ws s ! 2)) (Finite 0))"

definition row_record :: "string \<Rightarrow> perf_record" where
  "row_record s =
     \<lparr> name = last (split_ws s),
       time_percent = float_val (split_ws s ! 0),
       cumulative_seconds = float_val (split_ws s ! 1),
       self_seconds = float_val (split_ws s ! 2),
       calls = (if split_ws s ! 3 = ''null'' then ''0'' else split_ws s ! 3) \<rparr>"

section \<open>Sample inputs\<close>

definition sample_records :: "perf_record list" where
  "sample_records =
     [\<lparr> name = ''matrix_multiply'', time_percent = Finite 15,
        cumulative_seconds = Finite (5 / 4), self_seconds = Finite 1, calls = ''500'' \<rparr>,
      \<lparr> name = ''data_postprocessing'', time_percent = Finite 5,
        cumulative_seconds = Finite (3 / 2), self_seconds = Finite (1 / 4), calls = ''1'' \<rparr>,
      \<lparr> name = ''helper'', time_percent = Finite (1 / 2),
        cumulative_seconds = Finite (13 / 8), self_seconds = Finite (1 / 8),
        calls = ''10'' \<rparr>]"

definition infinite_hotspot :: perf_record where
  "infinite_hotspot =
     \<lparr> name = ''matrix_multiply'', time_percent = PosInf, cumulative_seconds = Finite 1,
       self_seconds = Finite 1, calls = ''1'' \<rparr>"

definition sample_report :: string where
  "sample_report =
     ''Flat profile:'' @ [CHR 0x0A] @ ''% time'' @ [CHR 0x0A]
     @ ''5.0 1.0 1.0 null 0 f'' @ [CHR 0x0A]
     @ ''12.5 1.5 1.0 500 0 g'' @ [CHR 0x0A]
     @ ''5.0 2.0 0.5 abc 0 h''"

definition unkept_report :: string where
  "unkept_report =
     ''Flat profile:'' @ [CHR 0x0A] @ ''4.0 1.0 1.0 10 early'' @ [CHR 0x0A]
     @ ''% time'' @ [CHR 0x0A]
     @ ''7.0 2.0 1.0 20 rename'' @ [CHR 0x0A]
     @ ''3.0 bad 1.0 5 f'' @ [CHR 0x0A]
     @ ''2.0 3.0 1.0 7 kept''"


definition special_report :: string where
  "special_report =
     ''Flat profile:'' @ [CHR 0x0A] @ ''% time'' @ [CHR 0x0A]
     @ ''inf 1.0 1.0 1 0 a'' @ [CHR 0x0A]
     @ ''-0.0 1.0 nan 1 0 b'' @ [CHR 0x0A]
     @ ''-0.5 1.0 1.0 1 0 c''"

section \<open>The classifier\<close>

lemma startswith_iff: "startswith p s \<longleftrightarrow> (\<exists>b. s = p @ b)"
  unfolding startswith_def
  by (metis append_eq_conv_conj append_take_drop_id)

lemma str_in_iff: "str_in k s \<longleftrightarrow> (\<exists>a b. s = a @ k @ b)"
proof (induction s)
  case Nil
  then show ?case by auto
next
  case (Cons c cs)
  show ?case
  proof
    assume "str_in k (c # cs)"
    then consider "startswith k (c # cs)" | "str_in k cs" by auto
    then show "\<exists>a b. c # cs = a @ k @ b"
    proof cases
      case 1
      then obtain b where "c # cs = k @ b" using startswith_iff by blast
      then have "c # cs = [] @ k @ b" by simp
      then show ?thesis by blast
    next
      case 2
      then obtain a b where "cs = a @ k @ b" using Cons.IH by blast
      then have "c # cs = (c # a) @ k @ b" by simp
      then show ?thesis by blast
    qed
  next
    assume "\<exists>a b. c # cs = a @ k @ b"
    then obtain a b where ab: "c # cs = a @ k @ b" by blast
    show "str_in k (c # cs)"
    proof (cases a)
      case Nil
      with ab have "startswith k (c # cs)" using startswith_iff by auto
      then show ?thesis by simp
    next
      case (Cons x a')
      with ab have "cs = a' @ k @ b" by simp
      then have "str_in k cs" using Cons.IH by blast
      then show ?thesis by simp
    qed
  qed
qed

lemma str_in_longer: "str_in (p @ k) s \<Longrightarrow> str_in k s"
proof -
  assume "str_in (p @ k) s"
  then obtain a b where "s = a @ (p @ k) @ b" using str_in_iff by blast
  then have "s = (a @ p) @ k @ b" by simp
  then show ?thesis using str_in_iff by blast
qed

lemma first_match_at:
  "i < length cat \<Longrightarrow> str_in (fst (cat ! i)) s \<Longrightarrow> \<forall>j<i. \<not> str_in (fst (cat ! j)) s
   \<Longrightarrow> first_match cat s = Some (snd (cat ! i))"
proof (induction cat arbitrary: i)
  case Nil
  then show ?case by simp
next
  case (Cons p cat)
  obtain k r where p: "p = (k, r)" by (cases p)
  show ?case
  proof (cases i)
    case 0
    with Cons.prems p show ?thesis by simp
  next
    case (Suc i')
    with Cons.prems have "\<not> str_in (fst ((p # cat) ! 0)) s" by blast
    then have nk: "\<not> str_in k s" using p by simp
    have "\<forall>j<i'. \<not> str_in (fst (cat ! j)) s"
    proof (intro allI impI)
      fix j assume "j < i'"
      then have "Suc j < i" using Suc by simp
      then have "\<not> str_in (fst ((p # cat) ! Suc j)) s" using Cons.prems(3) by blast
      then show "\<not> str_in (fst (cat ! j)) s" by simp
    qed
    moreover have "i' < length cat" "str_in (fst (cat ! i')) s"
      using Cons.prems Suc by auto
    ultimately have "first_match cat s = Some (snd (cat ! i'))" using Cons.IH by blast
    then show ?thesis using nk p Suc by simp
  qed
qed

text \<open>
  Claim C1, as amended. For every entry of the catalogue and every function name whose
  lowercased form contains the key of that entry and the key of no entry enumerated
  before it, the classifier returns the verdict of that entry.
\<close>

theorem catalogue_first_key_wins:
  assumes "i < length recommendations"
    and "str_in (fst (recommendations ! i)) (lower function_name)"
    and "\<forall>j<i. \<not> str_in (fst (recommendations ! j)) (lower function_name)"
  shows "generate_parallelization_recommendations function_name = snd (recommendations ! i)"
  using first_match_at [OF assms]
  by (simp add: generate_parallelization_recommendations_def)

theorem catalogue_first_key_wins_witness:
  "5 < length recommendations
   \<and> str_in (fst (recommendations ! 5)) (lower ''Init_Vector_Operations_2'')
   \<and> \<not> (\<exists>j<5. str_in (fst (recommendations ! j)) (lower ''Init_Vector_Operations_2''))
   \<and> generate_parallelization_recommendations ''Init_Vector_Operations_2'' = rec_vector_operations"
proof -
  have l: "lower ''Init_Vector_Operations_2'' = ''init_vector_operations_2''"
    by code_simp
  have a: "5 < length recommendations" by (simp add: recommendations_def)
  have b: "str_in (fst (recommendations ! 5)) (lower ''Init_Vector_Operations_2'')"
    unfolding l by (simp add: recommendations_def startswith_def)
  have c: "\<forall>j<5. \<not> str_in (fst (recommendations ! j)) (lower ''Init_Vector_Operations_2'')"
  proof (intro allI impI)
    fix j :: nat assume "j < 5"
    then consider "j = 0" | "j = 1" | "j = 2" | "j = 3" | "j = 4" by linarith
    then show "\<not> str_in (fst (recommendations ! j)) (lower ''Init_Vector_Operations_2'')"
      unfolding l by cases (simp_all add: recommendations_def startswith_def)
  qed
  have "snd (recommendations ! 5) = rec_vector_operations" by (simp add: recommendations_def)
  with catalogue_first_key_wins [OF a b c] a b c show ?thesis by auto
qed


text \<open>
  Claim C1 as stated fails: the name below contains the key \<open>vector_operations\<close>, and the
  classifier returns the verdict of \<open>matrix_multiply\<close>, whose key it contains too and
  which is enumerated first.
\<close>

theorem catalogue_key_counterexample:
  "str_in ''vector_operations'' (lower ''matrix_multiply_vector_operations'')
   \<and> generate_parallelization_recommendations ''matrix_multiply_vector_operations''
       = rec_matrix_multiply
   \<and> rec_matrix_multiply \<noteq> rec_vector_operations"
proof -
  have l: "lower ''matrix_multiply_vector_operations'' = ''matrix_multiply_vector_operations''"
    by code_simp
  have "str_in ''vector_operations'' ''matrix_multiply_vector_operations''"
    by (simp add: startswith_def)
  moreover have "first_match recommendations ''matrix_multiply_vector_operations''
      = Some rec_matrix_multiply"
    by (simp add: recommendations_def startswith_def)
  moreover have "rec_matrix_multiply \<noteq> rec_vector_operations"
    by (simp add: rec_matrix_multiply_def rec_vector_operations_def)
  ultimately show ?thesis
    by (simp add: generate_parallelization_recommendations_def l)
qed

lemma not_bex_of_ball: "\<forall>x\<in>A. \<not> P x \<Longrightarrow> \<not> (\<exists>x\<in>A. P x)"
  by blast

lemma first_match_None:
  "\<forall>k \<in> set (map fst cat). \<not> str_in k s \<Longrightarrow> first_match cat s = None"
  by (induction cat) auto

text \<open>
  Claim C8. A function name whose lowercased form contains no key of the catalogue and
  none of the words of the heuristic chain gets the unknown verdict, with every field
  populated: no parallelizability, complexity \<open>Unknown\<close>, pattern
  \<open>Requires manual analysis\<close>, platforms \<open>Manual analysis needed\<close>, and the strategy
  \<open>Profile function behavior and analyze dependencies\<close>.
\<close>

theorem unknown_verdict_complete:
  assumes "\<forall>k \<in> set (map fst recommendations). \<not> str_in k (lower function_name)"
    and "\<forall>w \<in> {''multiply'', ''matmul'', ''vector'', ''preprocess'', ''postprocess'',
                 ''init'', ''sum'', ''checksum''}. \<not> str_in w (lower function_name)"
  shows "parallelizable (generate_parallelization_recommendations function_name) = None
    \<and> complexity (generate_parallelization_recommendations function_name) = ''Unknown''
    \<and> pattern (generate_parallelization_recommendations function_name)
        = ''Requires manual analysis''
    \<and> platforms (generate_parallelization_recommendations function_name)
        = [''Manual analysis needed'']
    \<and> strategy (generate_parallelization_recommendations function_name)
        = ''Profile function behavior and analyze dependencies''"
proof -
  have "first_match recommendations (lower function_name) = None"
    using assms(1) by (rule first_match_None)
  moreover have "heuristic_chain (lower function_name) = rec_unknown"
    using assms(2) by (simp add: heuristic_chain_def)
  ultimately have "generate_parallelization_recommendations function_name = rec_unknown"
    by (simp add: generate_parallelization_recommendations_def)
  then show ?thesis by (simp add: rec_unknown_def)
qed

theorem unknown_verdict_complete_witness:
  "\<not> (\<exists>k \<in> set (map fst recommendations). str_in k (lower ''foo_bar_baz''))
   \<and> \<not> (\<exists>w \<in> {''multiply'', ''matmul'', ''vector'', ''preprocess'', ''postprocess'',
                 ''init'', ''sum'', ''checksum''}. str_in w (lower ''foo_bar_baz''))
   \<and> parallelizable (generate_parallelization_recommendations ''foo_bar_baz'') = None
   \<and> complexity (generate_parallelization_recommendations ''foo_bar_baz'') = ''Unknown''
   \<and> pattern (generate_parallelization_recommendations ''foo_bar_baz'')
        = ''Requires manual analysis''
   \<and> platforms (generate_parallelization_recommendations ''foo_bar_baz'')
        = [''Manual analysis needed'']
   \<and> strategy (generate_parallelization_recommendations ''foo_bar_baz'')
        = ''Profile function behavior and analyze dependencies''"
proof -
  have l: "lower ''foo_bar_baz'' = ''foo_bar_baz''" by code_simp
  have a: "\<forall>k \<in> set (map fst recommendations). \<not> str_in k (lower ''foo_bar_baz'')"
    unfolding l by (simp add: recommendations_def startswith_def)
  have b: "\<forall>w \<in> {''multiply'', ''matmul'', ''vector'', ''preprocess'', ''postprocess'',
                 ''init'', ''sum'', ''checksum''}. \<not> str_in w (lower ''foo_bar_baz'')"
    unfolding l by (simp add: startswith_def)
  have a': "\<not> (\<exists>k \<in> set (map fst recommendations). str_in k (lower ''foo_bar_baz''))"
    using a by (rule not_bex_of_ball)
  have b': "\<not> (\<exists>w \<in> {''multiply'', ''matmul'', ''vector'', ''preprocess'', ''postprocess'',
                 ''init'', ''sum'', ''checksum''}. str_in w (lower ''foo_bar_baz''))"
    using b by (rule not_bex_of_ball)
  show ?thesis
    using unknown_verdict_complete [OF a b] by (intro conjI a' b') (elim conjE, assumption)+
qed

lemma blocked_distinct:
  "rec_matrix_multiply \<noteq> rec_blocked_matrix_multiply"
  "rec_matrix_vector_multiply \<noteq> rec_blocked_matrix_multiply"
  "rec_data_preprocessing \<noteq> rec_blocked_matrix_multiply"
  "rec_data_postprocessing \<noteq> rec_blocked_matrix_multiply"
  "rec_vector_operations \<noteq> rec_blocked_matrix_multiply"
  "rec_initialize_data \<noteq> rec_blocked_matrix_multiply"
  "rec_calculate_checksum \<noteq> rec_blocked_matrix_multiply"
  "rec_unknown \<noteq> rec_blocked_matrix_multiply"
  by (simp_all add: rec_matrix_multiply_def rec_blocked_matrix_multiply_def
      rec_matrix_vector_multiply_def rec_data_preprocessing_def rec_data_postprocessing_def
      rec_vector_operations_def rec_initialize_data_def rec_calculate_checksum_def
      rec_unknown_def)

lemma heuristic_chain_not_blocked: "heuristic_chain s \<noteq> rec_blocked_matrix_multiply"
  by (simp add: heuristic_chain_def blocked_distinct)

lemma blocked_contains_matrix_multiply:
  "str_in ''blocked_matrix_multiply'' s \<Longrightarrow> str_in ''matrix_multiply'' s"
  using str_in_longer [of "''blocked_''" "''matrix_multiply''" s] by simp

text \<open>
  Claim C10. A function name whose lowercased form contains \<open>blocked_matrix_multiply\<close>
  gets the verdict of \<open>matrix_multiply\<close> (platforms OpenMP and CUDA, strategy block
  decomposition), and no function name at all gets the verdict of the catalogue entry
  \<open>blocked_matrix_multiply\<close>.
\<close>

theorem blocked_entry_unreachable:
  "(str_in ''blocked_matrix_multiply'' (lower function_name) \<longrightarrow>
      generate_parallelization_recommendations function_name = rec_matrix_multiply
      \<and> platforms (generate_parallelization_recommendations function_name)
          = [''OpenMP'', ''CUDA'']
      \<and> strategy (generate_parallelization_recommendations function_name)
          = ''Block decomposition, GPU thread blocks for (i,j) pairs'')
   \<and> generate_parallelization_recommendations function_name \<noteq> rec_blocked_matrix_multiply"
proof (cases "str_in ''matrix_multiply'' (lower function_name)")
  case True
  then have "generate_parallelization_recommendations function_name = rec_matrix_multiply"
    by (simp add: generate_parallelization_recommendations_def recommendations_def)
  then show ?thesis
    by (simp add: blocked_distinct) (simp add: rec_matrix_multiply_def)
next
  case False
  then have nb: "\<not> str_in ''blocked_matrix_multiply'' (lower function_name)"
    using blocked_contains_matrix_multiply by blast
  have "generate_parallelization_recommendations function_name \<noteq> rec_blocked_matrix_multiply"
    using False nb
    by (simp add: generate_parallelization_recommendations_def recommendations_def
        blocked_distinct heuristic_chain_not_blocked)
  with nb show ?thesis by simp
qed

theorem blocked_entry_unreachable_witness:
  "str_in ''blocked_matrix_multiply'' (lower ''Blocked_Matrix_Multiply_v2'')
   \<and> generate_parallelization_recommendations ''Blocked_Matrix_Multiply_v2''
       = rec_matrix_multiply
   \<and> generate_parallelization_recommendations ''Blocked_Matrix_Multiply_v2''
       \<noteq> rec_blocked_matrix_multiply"
proof -
  have l: "lower ''Blocked_Matrix_Multiply_v2'' = ''blocked_matrix_multiply_v2''" by code_simp
  have a: "str_in ''blocked_matrix_multiply'' (lower ''Blocked_Matrix_Multiply_v2'')"
    unfolding l by (simp add: startswith_def)
  with blocked_entry_unreachable [of "''Blocked_Matrix_Multiply_v2''"] show ?thesis by blast
qed

section \<open>Rounding\<close>

lemma p_pos: "0 < (2::rat) powi a" by simp
lemma p_mono: "a \<le> b \<Longrightarrow> (2::rat) powi a \<le> 2 powi b"
  by (rule power_int_increasing) simp_all
lemma p_smono: "a < b \<Longrightarrow> (2::rat) powi a < 2 powi b"
  by (rule power_int_strict_increasing) simp_all
lemma p_add: "(2::rat) powi (a + b) = 2 powi a * 2 powi b"
  by (rule power_int_add) simp
lemma p_diff: "(2::rat) powi (a - b) = 2 powi a / 2 powi b"
  by (rule power_int_diff) simp

lemma flog2_bounds:
  assumes "0 < x"
  shows "2 powi flog2 x \<le> x" and "x < 2 powi (flog2 x + 1)"
proof -
  obtain a b where q: "quotient_of x = (a, b)" by (cases "quotient_of x")
  have b: "0 < b" using q quotient_of_denom_pos by blast
  have x: "x = of_int a / of_int b" using q by (rule quotient_of_div)
  have a: "0 < a" using assms b x by (simp add: zero_less_divide_iff)
  let ?la = "bitlen a" and ?lb = "bitlen b"
  have la1: "1 \<le> ?la" and lb1: "1 \<le> ?lb" using a b by (auto simp: bitlen_alt_def)
  from bitlen_bounds [OF a] have "2 ^ nat (?la - 1) \<le> a" "a < 2 ^ nat ?la" by auto
  then have "(of_int (2 ^ nat (?la - 1)) :: rat) \<le> of_int a"
    "(of_int a :: rat) < of_int (2 ^ nat ?la)"
    by (simp_all only: of_int_le_iff of_int_less_iff)
  then have A: "(2::rat) powi (?la - 1) \<le> of_int a" "(of_int a :: rat) < 2 powi ?la"
    using la1 by (simp_all add: power_int_nonneg_exp)
  from bitlen_bounds [OF b] have "2 ^ nat (?lb - 1) \<le> b" "b < 2 ^ nat ?lb" by auto
  then have "(of_int (2 ^ nat (?lb - 1)) :: rat) \<le> of_int b"
    "(of_int b :: rat) < of_int (2 ^ nat ?lb)"
    by (simp_all only: of_int_le_iff of_int_less_iff)
  then have B: "(2::rat) powi (?lb - 1) \<le> of_int b" "(of_int b :: rat) < 2 powi ?lb"
    using lb1 by (simp_all add: power_int_nonneg_exp)
  have b': "(0::rat) < of_int b" using b by simp
  have up: "x < 2 powi (?la - ?lb + 1)"
  proof -
    have "of_int a / of_int b < (2::rat) powi ?la / of_int b"
      using A(2) b' by (simp add: divide_strict_right_mono)
    also have "\<dots> \<le> 2 powi ?la / 2 powi (?lb - 1)"
    proof (rule divide_left_mono)
      show "(2::rat) powi (?lb - 1) \<le> of_int b" by (rule B(1))
      show "(0::rat) \<le> 2 powi ?la" by simp
      show "(0::rat) < of_int b * 2 powi (?lb - 1)" using b' by (intro mult_pos_pos) simp_all
    qed
    also have "\<dots> = 2 powi (?la - (?lb - 1))" by (simp only: p_diff)
    finally show ?thesis by (simp add: x algebra_simps)
  qed
  have lo: "2 powi (?la - ?lb - 1) \<le> x"
  proof -
    have "(2::rat) powi (?la - 1 - ?lb) = 2 powi (?la - 1) / 2 powi ?lb" by (simp only: p_diff)
    also have "\<dots> \<le> of_int a / 2 powi ?lb"
      using A(1) by (simp add: divide_right_mono)
    also have "\<dots> \<le> of_int a / of_int b"
    proof (rule divide_left_mono)
      show "(of_int b :: rat) \<le> 2 powi ?lb" using B(2) by simp
      show "(0::rat) \<le> of_int a" using a by simp
      show "(0::rat) < 2 powi ?lb * of_int b" using b' by (intro mult_pos_pos) simp_all
    qed
    finally show ?thesis by (simp add: x algebra_simps)
  qed
  show "2 powi flog2 x \<le> x"
    using lo by (simp add: flog2_def q)
  show "x < 2 powi (flog2 x + 1)"
    using up by (auto simp add: flog2_def q not_le)
qed

lemma flog2_unique:
  assumes "0 < x" "2 powi e \<le> x" "x < 2 powi (e + 1)"
  shows "flog2 x = e"
proof -
  have lt1: "(2::rat) powi flog2 x < 2 powi (e + 1)"
    using flog2_bounds(1) [OF assms(1)] assms(3) by simp
  have "flog2 x < e + 1"
  proof (rule ccontr)
    assume "\<not> flog2 x < e + 1"
    then have "e + 1 \<le> flog2 x" by simp
    then have "(2::rat) powi (e + 1) \<le> 2 powi flog2 x" by (rule p_mono)
    with lt1 show False by simp
  qed
  moreover have lt2: "(2::rat) powi e < 2 powi (flog2 x + 1)"
    using flog2_bounds(2) [OF assms(1)] assms(2) by simp
  have "e < flog2 x + 1"
  proof (rule ccontr)
    assume "\<not> e < flog2 x + 1"
    then have "flog2 x + 1 \<le> e" by simp
    then have "(2::rat) powi (flog2 x + 1) \<le> 2 powi e" by (rule p_mono)
    with lt2 show False by simp
  qed
  ultimately show ?thesis by simp
qed


lemma rhe_lower: "\<lfloor>r\<rfloor> \<le> round_half_even r"
  by (simp add: round_half_even_def Let_def)

lemma rhe_upper: "round_half_even r \<le> \<lceil>r\<rceil>"
proof -
  have "\<lfloor>r\<rfloor> \<le> \<lceil>r\<rceil>" by (rule floor_le_ceiling)
  moreover have "\<lfloor>r\<rfloor> + 1 \<le> \<lceil>r\<rceil>" if "of_int \<lfloor>r\<rfloor> < r"
    using that by linarith
  ultimately show ?thesis
    by (auto simp: round_half_even_def Let_def)
qed

lemma rhe_of_int: "round_half_even (of_int n) = n"
  by (simp add: round_half_even_def Let_def)

lemma rhe_le: "r \<le> of_int n \<Longrightarrow> round_half_even r \<le> n"
  using rhe_upper [of r] by (meson ceiling_le order_trans)

lemma rhe_ge: "of_int n \<le> r \<Longrightarrow> n \<le> round_half_even r"
  using rhe_lower [of r] by (meson le_floor_iff order_trans)

lemma rhe_mono:
  assumes "r \<le> s"
  shows "round_half_even r \<le> round_half_even s"
proof (cases "\<lfloor>r\<rfloor> < \<lfloor>s\<rfloor>")
  case True
  have "round_half_even r \<le> \<lfloor>r\<rfloor> + 1"
    by (simp add: round_half_even_def Let_def)
  also have "\<dots> \<le> \<lfloor>s\<rfloor>" using True by simp
  also have "\<dots> \<le> round_half_even s" by (rule rhe_lower)
  finally show ?thesis .
next
  case False
  moreover have "\<lfloor>r\<rfloor> \<le> \<lfloor>s\<rfloor>" using assms by (rule floor_mono)
  ultimately have eq: "\<lfloor>r\<rfloor> = \<lfloor>s\<rfloor>" by simp
  show ?thesis
    using assms by (auto simp: round_half_even_def Let_def eq)
qed

lemma flog2_mono:
  assumes "0 < x" "x \<le> y"
  shows "flog2 x \<le> flog2 y"
proof (rule ccontr)
  assume "\<not> flog2 x \<le> flog2 y"
  then have "flog2 y + 1 \<le> flog2 x" by simp
  then have "(2::rat) powi (flog2 y + 1) \<le> 2 powi flog2 x" by (rule p_mono)
  also have "\<dots> \<le> x" using assms(1) by (rule flog2_bounds(1))
  also have "\<dots> \<le> y" by (rule assms(2))
  finally show False using flog2_bounds(2) [of y] assms by simp
qed

lemma quantum_pos: "0 < quantum x"
  by (simp add: quantum_def)

lemma quantum_53: "2 ^ 53 * quantum x = 2 powi (max (flog2 x) (- 1022) + 1)"
proof -
  have "(2::rat) powi (max (flog2 x) (- 1022) + 1) = 2 powi (53 + (max (flog2 x) (- 1022) - 52))"
    by (simp add: algebra_simps)
  also have "\<dots> = 2 powi 53 * quantum x" unfolding quantum_def by (rule p_add)
  finally show ?thesis by simp
qed

lemma quantum_52: "2 ^ 52 * quantum x = 2 powi (max (flog2 x) (- 1022))"
proof -
  have "(2::rat) powi (max (flog2 x) (- 1022)) = 2 powi (52 + (max (flog2 x) (- 1022) - 52))"
    by (simp add: algebra_simps)
  also have "\<dots> = 2 powi 52 * quantum x" unfolding quantum_def by (rule p_add)
  finally show ?thesis by simp
qed

lemma scaled_less:
  assumes "0 < x"
  shows "x / quantum x < 2 ^ 53"
proof -
  have "x < 2 powi (flog2 x + 1)" using assms by (rule flog2_bounds(2))
  also have "\<dots> \<le> 2 powi (max (flog2 x) (- 1022) + 1)" by (rule p_mono) simp
  also have "\<dots> = 2 ^ 53 * quantum x" by (simp only: quantum_53)
  finally show ?thesis using quantum_pos [of x] by (simp add: pos_divide_less_eq)
qed

lemma round_pos_nonneg: "0 < x \<Longrightarrow> 0 \<le> round_pos x"
proof -
  assume "0 < x"
  then have "(of_int 0 :: rat) \<le> x / quantum x" using quantum_pos [of x] by simp
  then have "0 \<le> round_half_even (x / quantum x)" by (rule rhe_ge)
  then show ?thesis using quantum_pos [of x] by (simp add: round_pos_def)
qed

lemma round_pos_le:
  assumes "0 < x"
  shows "round_pos x \<le> 2 powi (max (flog2 x) (- 1022) + 1)"
proof -
  have "x / quantum x \<le> of_int (2 ^ 53)" using scaled_less [OF assms] by simp
  then have "round_half_even (x / quantum x) \<le> 2 ^ 53" by (rule rhe_le)
  then have "(of_int (round_half_even (x / quantum x)) :: rat) \<le> of_int (2 ^ 53)"
    by (simp only: of_int_le_iff)
  then have "round_pos x \<le> 2 ^ 53 * quantum x"
    unfolding round_pos_def using quantum_pos [of x] by (simp add: mult_right_mono)
  then show ?thesis by (simp only: quantum_53)
qed

lemma round_pos_ge:
  assumes "0 < x" "- 1022 \<le> flog2 x"
  shows "2 powi flog2 x \<le> round_pos x"
proof -
  have m: "max (flog2 x) (- 1022) = flog2 x" using assms(2) by simp
  have "2 ^ 52 * quantum x \<le> x"
    using flog2_bounds(1) [OF assms(1)] by (simp only: quantum_52 m)
  then have "of_int (2 ^ 52) \<le> x / quantum x"
    using quantum_pos [of x] by (simp add: pos_le_divide_eq)
  then have "2 ^ 52 \<le> round_half_even (x / quantum x)" by (rule rhe_ge)
  then have "(of_int (2 ^ 52) :: rat) \<le> of_int (round_half_even (x / quantum x))"
    by (simp only: of_int_le_iff)
  then have "2 ^ 52 * quantum x \<le> round_pos x"
    unfolding round_pos_def using quantum_pos [of x] by (simp add: mult_right_mono)
  then show ?thesis by (simp only: quantum_52 m)
qed

lemma round_pos_mono:
  assumes "0 < x" "x \<le> y"
  shows "round_pos x \<le> round_pos y"
proof -
  have y: "0 < y" using assms by simp
  let ?ex = "max (flog2 x) (- 1022)" and ?ey = "max (flog2 y) (- 1022)"
  have le: "?ex \<le> ?ey" using flog2_mono [OF assms] by simp
  show ?thesis
  proof (cases "?ex = ?ey")
    case True
    then have q: "quantum x = quantum y" by (simp add: quantum_def)
    have "x / quantum y \<le> y / quantum y"
      using assms(2) quantum_pos [of y] by (simp add: divide_right_mono)
    then have "round_half_even (x / quantum y) \<le> round_half_even (y / quantum y)"
      by (rule rhe_mono)
    then have "(of_int (round_half_even (x / quantum y)) :: rat)
        \<le> of_int (round_half_even (y / quantum y))"
      by (simp only: of_int_le_iff)
    then show ?thesis
      unfolding round_pos_def q using quantum_pos [of y] by (simp add: mult_right_mono)
  next
    case False
    with le have lt: "?ex + 1 \<le> ?ey" by simp
    then have fy: "- 1022 \<le> flog2 y" "?ey = flog2 y" by auto
    have "round_pos x \<le> 2 powi (?ex + 1)" using assms(1) by (rule round_pos_le)
    also have "\<dots> \<le> 2 powi ?ey" using lt by (rule p_mono)
    also have "\<dots> = 2 powi flog2 y" by (simp only: fy(2))
    also have "\<dots> \<le> round_pos y" using y fy(1) by (rule round_pos_ge)
    finally show ?thesis .
  qed
qed

lemma round_pos_of_scaled:
  assumes "0 < v" and "v = of_int n * quantum v"
  shows "round_pos v = v"
proof -
  have "v / quantum v = of_int n"
    using assms(2) quantum_pos [of v] by (simp add: nonzero_divide_eq_eq)
  then show ?thesis
    unfolding round_pos_def by (simp add: rhe_of_int assms(2) [symmetric])
qed

lemma round_pos_fixed:
  assumes "0 < x" "0 < round_pos x"
  shows "round_pos (round_pos x) = round_pos x"
proof -
  let ?e = "max (flog2 x) (- 1022)"
  let ?n = "round_half_even (x / quantum x)"
  let ?v = "round_pos x"
  have v: "?v = of_int ?n * quantum x" by (simp add: round_pos_def)
  have n53: "?n \<le> 2 ^ 53"
    using scaled_less [OF assms(1)] by (intro rhe_le) simp
  show ?thesis
  proof (cases "?n = 2 ^ 53")
    case True
    then have veq: "?v = 2 powi (?e + 1)" using quantum_53 [of x] by (simp add: v)
    have "flog2 ?v = ?e + 1"
    proof (rule flog2_unique)
      show "0 < ?v" by (rule assms(2))
      show "2 powi (?e + 1) \<le> ?v" by (simp add: veq)
      show "?v < 2 powi (?e + 1 + 1)" unfolding veq by (rule p_smono) simp
    qed
    then have "max (flog2 ?v) (- 1022) = ?e + 1" by simp
    then have "quantum ?v = 2 powi (?e + 1 - 52)" by (simp add: quantum_def)
    also have "\<dots> = 2 powi (1 + (?e - 52))" by (simp add: algebra_simps)
    also have "\<dots> = 2 * quantum x" unfolding quantum_def by (simp only: p_add) simp
    finally have q': "quantum ?v = 2 * quantum x" .
    have "of_int (2 ^ 52) * quantum ?v = of_int (2 ^ 52) * (2 * quantum x)"
      by (simp only: q')
    also have "\<dots> = of_int ?n * quantum x" by (simp add: True)
    also have "\<dots> = ?v" by (simp only: v)
    finally have "?v = of_int (2 ^ 52) * quantum ?v" by (rule sym)
    with assms(2) show ?thesis by (rule round_pos_of_scaled)
  next
    case False
    with n53 have nlt: "?n < 2 ^ 53" by simp
    then have "(of_int ?n :: rat) < of_int (2 ^ 53)" by (simp only: of_int_less_iff)
    then have "?v < 2 ^ 53 * quantum x"
      unfolding v using quantum_pos [of x] by (simp add: mult_strict_right_mono)
    then have vlt: "?v < 2 powi (?e + 1)" by (simp only: quantum_53)
    have "max (flog2 ?v) (- 1022) = ?e"
    proof (cases "- 1022 \<le> flog2 x")
      case True
      then have m: "?e = flog2 x" by simp
      have "2 powi flog2 x \<le> ?v" using assms(1) True by (rule round_pos_ge)
      then have "flog2 ?v = flog2 x"
        using vlt unfolding m by (intro flog2_unique assms(2))
      then show ?thesis by simp
    next
      case False
      then have m: "?e = - 1022" by simp
      have "flog2 ?v < - 1021"
      proof (rule ccontr)
        assume "\<not> flog2 ?v < - 1021"
        then have "- 1021 \<le> flog2 ?v" by simp
        then have "(2::rat) powi (- 1021) \<le> 2 powi flog2 ?v" by (rule p_mono)
        also have "\<dots> \<le> ?v" using assms(2) by (rule flog2_bounds(1))
        finally show False using vlt unfolding m by simp
      qed
      then show ?thesis unfolding m by simp
    qed
    then have "quantum ?v = quantum x" by (simp add: quantum_def)
    then have "?v = of_int ?n * quantum ?v" using v by simp
    with assms(2) show ?thesis by (rule round_pos_of_scaled)
  qed
qed

lemma round_pos_positive:
  assumes "2 powi (- 1075) < x"
  shows "2 powi (- 1074) \<le> round_pos x"
proof -
  have x: "0 < x" using assms p_pos [of "- 1075"] by (rule order.strict_trans [rotated])
  show ?thesis
  proof (cases "- 1022 \<le> flog2 x")
    case True
    have "(2::rat) powi (- 1074) \<le> 2 powi flog2 x" using True by (intro p_mono) simp
    also have "\<dots> \<le> round_pos x" using x True by (rule round_pos_ge)
    finally show ?thesis .
  next
    case False
    then have q: "quantum x = 2 powi (- 1074)" by (simp add: quantum_def)
    have "(2::rat) powi (- 1075) = 2 powi (- 1 + - 1074)" by simp
    also have "\<dots> = 2 powi (- 1) * 2 powi (- 1074)" by (rule p_add)
    finally have h: "(2::rat) powi (- 1075) = 1 / 2 * quantum x" by (simp add: q)
    have half: "1 / 2 < x / quantum x"
      using assms quantum_pos [of x] unfolding h by (simp add: pos_less_divide_eq)
    have "1 \<le> round_half_even (x / quantum x)"
    proof (cases "1 \<le> x / quantum x")
      case True
      then have "of_int 1 \<le> x / quantum x" by simp
      then show ?thesis by (rule rhe_ge)
    next
      case False
      moreover have "0 \<le> x / quantum x" using x quantum_pos [of x] by simp
      ultimately have "\<lfloor>x / quantum x\<rfloor> = 0" by (simp add: floor_eq_iff)
      then show ?thesis using half by (simp add: round_half_even_def Let_def)
    qed
    then have "(of_int 1 :: rat) \<le> of_int (round_half_even (x / quantum x))"
      by (simp only: of_int_le_iff)
    then have "1 * quantum x \<le> round_pos x"
      unfolding round_pos_def using quantum_pos [of x] by (intro mult_right_mono) simp_all
    then show ?thesis by (simp add: q)
  qed
qed

lemma round_double_zero: "round_double 0 = Finite 0"
  by (simp add: round_double_def)

lemma overflow_bound_pos: "0 < overflow_bound"
  by (simp only: overflow_bound_def p_pos)

lemma flog2_zero: "flog2 0 = - 2"
  by code_simp

lemma overflow_test:
  assumes "0 \<le> v"
  shows "1024 \<le> flog2 v \<longleftrightarrow> overflow_bound \<le> v"
proof (cases "v = 0")
  case True
  then show ?thesis using overflow_bound_pos by (simp add: flog2_zero)
next
  case False
  with assms have v: "0 < v" by simp
  show ?thesis
  proof
    assume "1024 \<le> flog2 v"
    then have "(2::rat) powi 1024 \<le> 2 powi flog2 v" by (rule p_mono)
    also have "\<dots> \<le> v" using v by (rule flog2_bounds(1))
    finally show "overflow_bound \<le> v" by (simp only: overflow_bound_def)
  next
    assume "overflow_bound \<le> v"
    then have b: "(2::rat) powi 1024 \<le> v" by (simp only: overflow_bound_def)
    show "1024 \<le> flog2 v"
    proof (rule ccontr)
      assume "\<not> 1024 \<le> flog2 v"
      then have "flog2 v + 1 \<le> 1024" by simp
      then have "(2::rat) powi (flog2 v + 1) \<le> 2 powi 1024" by (rule p_mono)
      with flog2_bounds(2) [OF v] b show False by simp
    qed
  qed
qed

lemma round_double_pos_eq:
  assumes "0 < x"
  shows "round_double x
     = (if overflow_bound \<le> round_pos x then PosInf else Finite (round_pos x))"
  using assms overflow_test [OF round_pos_nonneg [OF assms]] by (simp add: round_double_def)

lemma round_double_nonneg:
  assumes "0 \<le> x"
  shows "round_double x = PosInf
    \<or> (\<exists>v. round_double x = Finite v \<and> 0 \<le> v \<and> v < overflow_bound)"
proof (cases "x = 0")
  case True
  then show ?thesis by (simp add: round_double_zero overflow_bound_pos)
next
  case False
  with assms have x: "0 < x" by simp
  show ?thesis
    using round_pos_nonneg [OF x] by (auto simp: round_double_pos_eq [OF x] not_le)
qed

lemma round_double_pos: "0 < x \<Longrightarrow> round_double x = Finite v \<Longrightarrow> v = round_pos x"
  by (auto simp: round_double_pos_eq split: if_splits)

lemma round_double_mono:
  assumes "0 \<le> x" "x \<le> y"
  shows "py_le (round_double x) (round_double y)"
proof (cases "x = 0")
  case True
  have "0 \<le> y" using assms by simp
  from round_double_nonneg [OF this] show ?thesis
    using True by (auto simp: round_double_zero)
next
  case False
  with assms have x: "0 < x" and y: "0 < y" by simp_all
  have "round_pos x \<le> round_pos y" using x assms(2) by (rule round_pos_mono)
  then show ?thesis by (auto simp: round_double_pos_eq [OF x] round_double_pos_eq [OF y])
qed

lemma round_double_fixed:
  assumes "0 \<le> x" "round_double x = Finite v"
  shows "round_double v = Finite v"
proof (cases "x = 0")
  case True
  then show ?thesis using assms(2) by (auto simp: round_double_def)
next
  case False
  with assms have x: "0 < x" by simp
  have v: "v = round_pos x" using x assms(2) by (rule round_double_pos)
  have lt: "round_pos x < overflow_bound"
    using assms(2) by (auto simp: round_double_pos_eq [OF x] split: if_splits)
  show ?thesis
  proof (cases "v = 0")
    case True
    then show ?thesis by (simp add: round_double_def)
  next
    case False
    then have pos: "0 < round_pos x" using round_pos_nonneg [OF x] v by simp
    have "round_pos (round_pos x) = round_pos x" using x pos by (rule round_pos_fixed)
    then show ?thesis using lt by (simp add: round_double_pos_eq [OF pos] v not_le [symmetric])
  qed
qed

lemma round_double_one: "round_double 1 = Finite 1"
  by code_simp

lemma round_double_hundred: "round_double 100 = Finite 100"
  by code_simp

lemma round_double_between:
  assumes "0 \<le> x" "x \<le> c" "round_double c = Finite c"
  shows "\<exists>v. round_double x = Finite v \<and> 0 \<le> v \<and> v \<le> c"
proof -
  have "py_le (round_double x) (Finite c)"
    using round_double_mono [OF assms(1,2)] by (simp add: assms(3))
  moreover from round_double_nonneg [OF assms(1)]
  have "round_double x = PosInf \<or> (\<exists>v. round_double x = Finite v \<and> 0 \<le> v)" by blast
  ultimately show ?thesis by auto
qed

section \<open>The order of the floats\<close>

lemma py_le_trans: "py_le a b \<Longrightarrow> py_le b c \<Longrightarrow> py_le a c"
  by (cases a; cases b; cases c) auto

lemma py_lt_le_trans: "py_lt a b \<Longrightarrow> py_le b c \<Longrightarrow> py_le a c"
  by (cases a; cases b; cases c) auto




lemma py_le_zero_cases:
  "py_le (Finite 0) x \<Longrightarrow> x = PosInf \<or> (\<exists>v. x = Finite v \<and> 0 \<le> v)"
  by (cases x) auto

lemma fadd_nonneg:
  assumes "py_le (Finite 0) a" "py_le (Finite 0) h"
  shows "py_le (Finite 0) (fadd a h) \<and> is_double (fadd a h)"
proof -
  from py_le_zero_cases [OF assms(1)] py_le_zero_cases [OF assms(2)]
  consider "a = PosInf" | "h = PosInf" | av hv where "a = Finite av" "h = Finite hv"
    "0 \<le> av" "0 \<le> hv"
    by blast
  then show ?thesis
  proof cases
    case 1
    then show ?thesis using assms(2) by (cases h) (auto simp: is_double_def)
  next
    case 2
    then show ?thesis using assms(1) by (cases a) (auto simp: is_double_def)
  next
    case 3
    then have s: "0 \<le> av + hv" by simp
    from round_double_nonneg [OF s] round_double_fixed [OF s]
    show ?thesis by (auto simp: 3 is_double_def)
  qed
qed

lemma fadd_mono:
  assumes "py_le (Finite 0) a" "py_le a b" "py_le (Finite 0) h"
  shows "py_le (fadd a h) (fadd b h)"
proof -
  have b0: "py_le (Finite 0) b" using assms(1,2) by (rule py_le_trans)
  from py_le_zero_cases [OF assms(3)] show ?thesis
  proof
    assume "h = PosInf"
    then show ?thesis using assms(1) b0 by (cases a; cases b) auto
  next
    assume "\<exists>v. h = Finite v \<and> 0 \<le> v"
    then obtain hv where h: "h = Finite hv" "0 \<le> hv" by blast
    from py_le_zero_cases [OF b0] show ?thesis
    proof
      assume b: "b = PosInf"
      from py_le_zero_cases [OF assms(1)] show ?thesis
      proof
        assume "a = PosInf"
        then show ?thesis by (simp add: b h)
      next
        assume "\<exists>v. a = Finite v \<and> 0 \<le> v"
        then obtain av where a: "a = Finite av" "0 \<le> av" by blast
        have "0 \<le> av + hv" using a h by simp
        from round_double_nonneg [OF this] show ?thesis by (auto simp: a b h)
      qed
    next
      assume "\<exists>v. b = Finite v \<and> 0 \<le> v"
      then obtain bv where b: "b = Finite bv" by blast
      with assms(1,2) obtain av where a: "a = Finite av" "0 \<le> av" "av \<le> bv"
        by (cases a) auto
      have "py_le (round_double (av + hv)) (round_double (bv + hv))"
        using a h by (intro round_double_mono) simp_all
      then show ?thesis by (simp add: a b h)
    qed
  qed
qed

lemma fadd_ge_left:
  assumes "py_le (Finite 0) p" "py_le p t" "is_double p" "py_le (Finite 0) h"
  shows "py_le p (fadd t h)"
proof -
  have t0: "py_le (Finite 0) t" using assms(1,2) by (rule py_le_trans)
  have th: "py_le (Finite 0) (fadd t h)" using fadd_nonneg [OF t0 assms(4)] by simp
  from py_le_zero_cases [OF assms(1)] show ?thesis
  proof
    assume p: "p = PosInf"
    then have "t = PosInf" using assms(2) by (cases t) auto
    then show ?thesis using p assms(4) by (cases h) auto
  next
    assume "\<exists>v. p = Finite v \<and> 0 \<le> v"
    then obtain pv where p: "p = Finite pv" "0 \<le> pv" by blast
    have fx: "round_double pv = Finite pv" using assms(3) by (simp add: p is_double_def)
    from py_le_zero_cases [OF th] show ?thesis
    proof
      assume "fadd t h = PosInf"
      then show ?thesis by (simp add: p)
    next
      assume "\<exists>v. fadd t h = Finite v \<and> 0 \<le> v"
      then obtain s where s: "fadd t h = Finite s" by blast
      then obtain tv hv where tv: "t = Finite tv" "h = Finite hv"
        using t0 assms(4) by (cases t; cases h) auto
      have "pv \<le> tv + hv" using assms(2,4) by (simp add: p tv)
      with p(2) have "py_le (round_double pv) (round_double (tv + hv))"
        by (rule round_double_mono)
      then show ?thesis by (simp add: fx p tv)
    qed
  qed
qed

lemma fadd_ge_one:
  assumes "py_le (Finite 0) p" "py_le (Finite 1) h"
  shows "py_le (Finite 1) (fadd p h)"
proof -
  have h0: "py_le (Finite 0) h" using assms(2) by (cases h) auto
  from py_le_zero_cases [OF assms(1)] py_le_zero_cases [OF h0]
  consider "p = PosInf" | "h = PosInf" | pv hv where "p = Finite pv" "h = Finite hv"
    "0 \<le> pv" "0 \<le> hv"
    by blast
  then show ?thesis
  proof cases
    case 1
    then show ?thesis using h0 by (cases h) auto
  next
    case 2
    then show ?thesis using assms(1) by (cases p) auto
  next
    case 3
    have "1 \<le> pv + hv" using assms(2) 3 by simp
    then have "py_le (round_double 1) (round_double (pv + hv))"
      by (intro round_double_mono) simp_all
    then show ?thesis by (simp add: 3 round_double_one)
  qed
qed

section \<open>Selection and rollup\<close>

text \<open>
  Claim C5. The hotspot list is exactly the records with \<open>time_percent >= t\<close>, in their
  incoming order (a subsequence of the input); the empty input gives the empty list; and
  for thresholds \<open>t1 < t2\<close> every hotspot at \<open>t2\<close> is a hotspot at \<open>t1\<close>.
\<close>

theorem analyze_hotspots_filter:
  "analyze_hotspots functions t = filter (\<lambda>f. py_ge (time_percent f) t) functions
   \<and> subseq (analyze_hotspots functions t) functions
   \<and> analyze_hotspots [] t = []
   \<and> (py_lt t1 t2 \<longrightarrow>
        set (analyze_hotspots functions t2) \<subseteq> set (analyze_hotspots functions t1))"
proof -
  have eq: "analyze_hotspots fs u = filter (\<lambda>f. py_ge (time_percent f) u) fs" for fs u
    by (simp add: analyze_hotspots_def)
  have "subseq (filter (\<lambda>f. py_ge (time_percent f) t) functions) functions"
    by (rule subseq_filter_left)
  moreover have "py_lt t1 t2 \<longrightarrow> set (filter (\<lambda>f. py_ge (time_percent f) t2) functions)
      \<subseteq> set (filter (\<lambda>f. py_ge (time_percent f) t1) functions)"
    by (auto simp: py_ge_def intro: py_lt_le_trans)
  ultimately show ?thesis by (simp only: eq) simp
qed

theorem analyze_hotspots_filter_witness:
  "py_lt (Finite 1) (Finite 10)
   \<and> analyze_hotspots sample_records (Finite 1) = [sample_records ! 0, sample_records ! 1]
   \<and> analyze_hotspots sample_records (Finite 10) = [sample_records ! 0]
   \<and> set (analyze_hotspots sample_records (Finite 10))
       \<subseteq> set (analyze_hotspots sample_records (Finite 1))"
proof -
  have a: "analyze_hotspots sample_records (Finite 1)
      = [sample_records ! 0, sample_records ! 1]"
    by (simp add: analyze_hotspots_def sample_records_def py_ge_def)
  have b: "analyze_hotspots sample_records (Finite 10) = [sample_records ! 0]"
    by (simp add: analyze_hotspots_def sample_records_def py_ge_def)
  have d: "py_lt (Finite 1) (Finite 10)" by simp
  have "py_lt (Finite 1) (Finite 10) \<longrightarrow>
      set (analyze_hotspots sample_records (Finite 10))
        \<subseteq> set (analyze_hotspots sample_records (Finite 1))"
    using analyze_hotspots_filter [of sample_records "Finite 1" "Finite 1" "Finite 10"]
    by (elim conjE)
  then have c: "set (analyze_hotspots sample_records (Finite 10))
      \<subseteq> set (analyze_hotspots sample_records (Finite 1))"
    using d by (rule mp)
  show ?thesis by (intro conjI a b c d)
qed

lemma rollup_loop_invariant:
  "\<forall>h \<in> set hs. py_le (Finite 0) (time_percent h) \<Longrightarrow> py_le (Finite 0) p \<Longrightarrow> py_le p t
   \<Longrightarrow> is_double p \<Longrightarrow> is_double t
   \<Longrightarrow> py_le (Finite 0) (snd (rollup_loop (t, p) hs))
       \<and> py_le (snd (rollup_loop (t, p) hs)) (fst (rollup_loop (t, p) hs))
       \<and> is_double (snd (rollup_loop (t, p) hs))
       \<and> is_double (fst (rollup_loop (t, p) hs))"
proof (induction hs arbitrary: t p)
  case Nil
  then show ?case by simp
next
  case (Cons h hs)
  have h0: "py_le (Finite 0) (time_percent h)" using Cons.prems(1) by simp
  have rest: "\<forall>h \<in> set hs. py_le (Finite 0) (time_percent h)" using Cons.prems(1) by simp
  have t0: "py_le (Finite 0) t" using Cons.prems(2,3) by (rule py_le_trans)
  have t1: "is_double (fadd t (time_percent h))" using fadd_nonneg [OF t0 h0] by simp
  show ?case
  proof (cases "parallelizable (generate_parallelization_recommendations (name h)) = Some True")
    case True
    have "py_le (Finite 0) (fadd p (time_percent h))" "is_double (fadd p (time_percent h))"
      using fadd_nonneg [OF Cons.prems(2) h0] by simp_all
    moreover have "py_le (fadd p (time_percent h)) (fadd t (time_percent h))"
      using Cons.prems(2,3) h0 by (rule fadd_mono)
    ultimately show ?thesis
      using Cons.IH [OF rest, of "fadd p (time_percent h)" "fadd t (time_percent h)"] t1 True
      by (simp add: Let_def)
  next
    case False
    have "py_le p (fadd t (time_percent h))"
      using Cons.prems(2,3,4) h0 by (rule fadd_ge_left)
    then show ?thesis
      using Cons.IH [OF rest Cons.prems(2), of "fadd t (time_percent h)"] Cons.prems(4) t1 False
      by (simp add: Let_def)
  qed
qed

lemma rollup_loop_ge_one:
  "\<forall>h \<in> set hs. py_le (Finite 1) (time_percent h) \<Longrightarrow> py_le (Finite 0) p
   \<Longrightarrow> p = Finite 0 \<or> py_le (Finite 1) p
   \<Longrightarrow> snd (rollup_loop (t, p) hs) = Finite 0 \<or> py_le (Finite 1) (snd (rollup_loop (t, p) hs))"
proof (induction hs arbitrary: t p)
  case Nil
  then show ?case by simp
next
  case (Cons h hs)
  have h1: "py_le (Finite 1) (time_percent h)" using Cons.prems(1) by simp
  have rest: "\<forall>h \<in> set hs. py_le (Finite 1) (time_percent h)" using Cons.prems(1) by simp
  show ?case
  proof (cases "parallelizable (generate_parallelization_recommendations (name h)) = Some True")
    case True
    have one: "py_le (Finite 1) (fadd p (time_percent h))"
      using Cons.prems(2) h1 by (rule fadd_ge_one)
    have "py_le (Finite 0) (Finite 1)" by simp
    then have "py_le (Finite 0) (fadd p (time_percent h))" using one by (rule py_le_trans)
    from Cons.IH [OF rest this, of "fadd t (time_percent h)"] one True
    show ?thesis by (simp add: Let_def)
  next
    case False
    from Cons.IH [OF rest Cons.prems(2,3), of "fadd t (time_percent h)"] False
    show ?thesis by (simp add: Let_def)
  qed
qed

lemma analyze_hotspots_ge:
  "py_le lo threshold \<Longrightarrow>
   \<forall>h \<in> set (analyze_hotspots functions threshold). py_le lo (time_percent h)"
  by (auto simp: analyze_hotspots_def py_ge_def intro: py_le_trans)

lemma round_double_not_tiny:
  assumes "2 powi (- 1075) < x" "round_double x = Finite v"
  shows "2 powi (- 1074) \<le> v"
proof -
  have x: "0 < x" using p_pos [of "- 1075"] assms(1) by (rule order.strict_trans)
  have "v = round_pos x" using x assms(2) by (rule round_double_pos)
  then show ?thesis using round_pos_positive [OF assms(1)] by simp
qed

lemma tiny_less: "(2::rat) powi (- 1075) < 2 powi (- 1074)"
  by (rule p_smono) simp

lemma efficiency_finite:
  assumes "0 < total_time" "0 \<le> pv" "pv \<le> total_time"
  shows "\<exists>q e. round_double (pv / total_time) = Finite q \<and> 0 \<le> q \<and> q \<le> 1
     \<and> round_double (q * 100) = Finite e \<and> 0 \<le> e \<and> e \<le> 100
     \<and> efficiency (Finite total_time, Finite pv) = Some (Finite e)"
proof -
  have "0 \<le> pv / total_time" "pv / total_time \<le> 1" using assms by simp_all
  from round_double_between [OF this round_double_one]
  obtain q where q: "round_double (pv / total_time) = Finite q" "0 \<le> q" "q \<le> 1" by blast
  have "0 \<le> q * 100" "q * 100 \<le> 100" using q by simp_all
  from round_double_between [OF this round_double_hundred]
  obtain e where e: "round_double (q * 100) = Finite e" "0 \<le> e" "e \<le> 100" by blast
  have "efficiency (Finite total_time, Finite pv) = Some (Finite e)"
    using assms(1) by (simp add: efficiency_def py_gt_def q e)
  with q e show ?thesis by blast
qed

text \<open>
  Claim C3, as amended. For the hotspots selected at a threshold that is not negative
  (\<open>main\<close> uses 1.0), when \<open>total_hotspot_time\<close> is finite: the division does not raise,
  \<open>parallel_efficiency\<close> lies between 0 and 100, and it is 0 when \<open>parallelizable_time\<close> is
  0 and when \<open>total_hotspot_time\<close> is 0. At a threshold of at least 1 it is 0 exactly
  when \<open>parallelizable_time\<close> is 0.
\<close>

theorem parallel_efficiency_range:
  assumes "py_le (Finite 0) threshold"
    and "rollup_loop (Finite 0, Finite 0) (analyze_hotspots functions threshold)
           = (Finite total_time, parallelizable_time)"
  shows "\<exists>e. efficiency (Finite total_time, parallelizable_time) = Some (Finite e)
    \<and> 0 \<le> e \<and> e \<le> 100
    \<and> (parallelizable_time = Finite 0 \<longrightarrow> e = 0)
    \<and> (total_time = 0 \<longrightarrow> e = 0)
    \<and> (py_le (Finite 1) threshold \<longrightarrow> (e = 0 \<longleftrightarrow> parallelizable_time = Finite 0))"
proof -
  let ?hs = "analyze_hotspots functions threshold"
  have z: "py_le (Finite 0) (Finite 0)" "is_double (Finite 0)"
    by (simp_all add: is_double_def round_double_zero)
  have ge0: "\<forall>h \<in> set ?hs. py_le (Finite 0) (time_percent h)"
    using assms(1) by (rule analyze_hotspots_ge)
  have inv: "py_le (Finite 0) parallelizable_time" "py_le parallelizable_time (Finite total_time)"
    "is_double parallelizable_time" "is_double (Finite total_time)"
    using rollup_loop_invariant [OF ge0 z(1) z(1) z(2) z(2)]
    by (simp_all add: assms(2))
  from inv(1,2) obtain pv where p: "parallelizable_time = Finite pv" "0 \<le> pv" "pv \<le> total_time"
    by (cases parallelizable_time) auto
  have fixt: "round_double total_time = Finite total_time" using inv(4) by (simp add: is_double_def)
  show ?thesis
  proof (cases "0 < total_time")
    case True
    from efficiency_finite [OF True p(2,3)]
    obtain q e where q: "round_double (pv / total_time) = Finite q" "0 \<le> q" "q \<le> 1"
      and e: "round_double (q * 100) = Finite e" "0 \<le> e" "e \<le> 100"
      and eff: "efficiency (Finite total_time, Finite pv) = Some (Finite e)"
      by blast
    have zero: "e = 0" if "pv = 0"
    proof -
      have "q = 0" using q(1) that by (simp add: round_double_zero)
      then show ?thesis using e(1) by (simp add: round_double_zero)
    qed
    have nonzero: "e \<noteq> 0" if th: "py_le (Finite 1) threshold" and "pv \<noteq> 0"
    proof -
      have "snd (rollup_loop (Finite 0, Finite 0) ?hs) = Finite 0
          \<or> py_le (Finite 1) (snd (rollup_loop (Finite 0, Finite 0) ?hs))"
        by (rule rollup_loop_ge_one [OF analyze_hotspots_ge [OF th]]) simp_all
      then have p1: "1 \<le> pv" using that(2) by (simp add: assms(2) p(1))
      have "total_time = round_pos total_time" using True fixt by (rule round_double_pos)
      then have tlt: "total_time < overflow_bound"
        using fixt by (auto simp: round_double_pos_eq [OF True] split: if_splits)
      have "(2::rat) powi (- 1075) < 2 powi (- 1024)" by (rule p_smono) simp
      also have "\<dots> = 1 / overflow_bound"
        by (simp only: overflow_bound_def power_int_minus_divide)
      also have "\<dots> < 1 / total_time"
        using True tlt by (simp add: frac_less2)
      also have "\<dots> \<le> pv / total_time" using p1 True by (simp add: divide_right_mono)
      finally have "2 powi (- 1074) \<le> q" using q(1) by (rule round_double_not_tiny)
      with tiny_less have qq: "2 powi (- 1075) < q" by (rule order.strict_trans2)
      have "q \<le> q * 100" using q(2) by simp
      with qq have "2 powi (- 1075) < q * 100" by (rule order.strict_trans2)
      then have "2 powi (- 1074) \<le> e" using e(1) by (rule round_double_not_tiny)
      then show ?thesis using p_pos [of "- 1074"] by auto
    qed
    have "total_time \<noteq> 0" using True by simp
    with eff e zero nonzero show ?thesis by (auto simp: p(1))
  next
    case False
    with p have "total_time = 0" "pv = 0" by simp_all
    then show ?thesis by (simp add: efficiency_def py_gt_def p(1))
  qed
qed

lemma sample_rollup:
  "rollup_loop (Finite 0, Finite 0) (analyze_hotspots sample_records (Finite 1))
     = (Finite 20, Finite 15)"
  by code_simp

lemma sample_efficiency: "efficiency (Finite 20, Finite 15) = Some (Finite 75)"
  by code_simp

theorem parallel_efficiency_range_witness:
  "py_le (Finite 0) (Finite 1) \<and> py_le (Finite 1) (Finite 1)
   \<and> rollup_loop (Finite 0, Finite 0) (analyze_hotspots sample_records (Finite 1))
       = (Finite 20, Finite 15)
   \<and> efficiency (Finite 20, Finite 15) = Some (Finite 75)
   \<and> (\<exists>e. efficiency (Finite 20, Finite 15) = Some (Finite e)
         \<and> 0 \<le> e \<and> e \<le> 100 \<and> e \<noteq> 0)"
proof -
  have a: "py_le (Finite 0) (Finite 1)" by simp
  from parallel_efficiency_range [OF a sample_rollup]
  have "\<exists>e. efficiency (Finite 20, Finite 15) = Some (Finite e)
         \<and> 0 \<le> e \<and> e \<le> 100 \<and> e \<noteq> 0"
    by auto
  then show ?thesis using sample_rollup sample_efficiency by simp
qed

text \<open>
  Claim C3 as stated fails. One hotspot \<open>data_postprocessing\<close> at 5 percent, which is not
  parallelizable, gives the efficiency 0 with \<open>total_hotspot_time = 5\<close>. One
  parallelizable hotspot whose \<open>time_percent\<close> is the infinity (the token \<open>inf\<close>) gives
  the efficiency \<open>nan\<close>, which is not in the interval.
\<close>

theorem parallel_efficiency_zero_counterexample:
  "rollup_loop (Finite 0, Finite 0) (analyze_hotspots [sample_records ! 1] (Finite 1))
     = (Finite 5, Finite 0)
   \<and> efficiency (Finite 5, Finite 0) = Some (Finite 0) \<and> Finite 5 \<noteq> Finite 0
   \<and> rollup_loop (Finite 0, Finite 0) (analyze_hotspots [infinite_hotspot] (Finite 1))
     = (PosInf, PosInf)
   \<and> efficiency (PosInf, PosInf) = Some NaN"
  by code_simp

text \<open>
  Claim C9. The tier printed depends on \<open>parallelizable_time\<close> only: above 50 the high
  tier, above 20 and up to 50 the moderate tier, up to 20 the limited tier; the boundary
  values 50 and 20 fall into the lower tier.
\<close>

theorem platform_recommendation_tiers:
  "(py_gt p (Finite 50) \<longrightarrow> platform_recommendation p
       = [''HIGH PARALLELIZATION POTENTIAL'',
          ''Recommended: OpenMP + CUDA (heterogeneous approach)''])
   \<and> (py_gt p (Finite 20) \<and> py_le p (Finite 50) \<longrightarrow> platform_recommendation p
       = [''MODERATE PARALLELIZATION POTENTIAL'', ''Recommended: OpenMP (CPU focus)''])
   \<and> (py_le p (Finite 20) \<longrightarrow> platform_recommendation p
       = [''LIMITED PARALLELIZATION POTENTIAL''])"
  by (cases p) (auto simp: platform_recommendation_def py_gt_def)

theorem platform_recommendation_tiers_witness:
  "platform_recommendation (Finite 50)
       = [''MODERATE PARALLELIZATION POTENTIAL'', ''Recommended: OpenMP (CPU focus)'']
   \<and> platform_recommendation (Finite 20) = [''LIMITED PARALLELIZATION POTENTIAL'']
   \<and> platform_recommendation (Finite (101 / 2))
       = [''HIGH PARALLELIZATION POTENTIAL'',
          ''Recommended: OpenMP + CUDA (heterogeneous approach)'']"
  using platform_recommendation_tiers [of "Finite 50"]
    platform_recommendation_tiers [of "Finite 20"]
    platform_recommendation_tiers [of "Finite (101 / 2)"]
  by (simp add: py_gt_def)

section \<open>The extractor\<close>

lemma try_row_five:
  assumes "5 \<le> length parts"
  shows "try_row parts =
     (if float_ok (parts ! 0) \<and> float_ok (parts ! 1) \<and> float_ok (parts ! 2)
      then (if py_lt (float_val (parts ! 0)) (Finite 0)
               \<or> py_lt (float_val (parts ! 2)) (Finite 0) then Inr None
            else Inr (Some \<lparr> name = last parts, time_percent = float_val (parts ! 0),
                   cumulative_seconds = float_val (parts ! 1),
                   self_seconds = float_val (parts ! 2),
                   calls = (if parts ! 3 = ''null'' then ''0'' else parts ! 3) \<rparr>))
      else Inl ValueError)"
proof -
  have ne: "parts \<noteq> []" using assms by auto
  have v: "x = ValueError" if "py_float t = Inl x" for x t
    using that by (auto simp: py_float_def Let_def split: prod.splits if_splits)
  show ?thesis
    using assms ne
    by (auto simp: try_row_def index_def bind_exn_def float_ok_def float_val_def Let_def
        dest: v split: sum.splits)
qed

lemma scan_lines_True_step:
  "scan_lines True (line # rest) =
     (if strip line = [] then scan_lines True rest
      else if startswith ''Call graph'' (strip line) then []
      else if kept_row (strip line) then row_record (strip line) # scan_lines True rest
      else scan_lines True rest)"
proof (cases "5 \<le> length (split_ws (strip line))")
  case True
  show ?thesis
    using True
    by (simp add: Let_def try_row_five [OF True] kept_row_def row_record_def
        is_header_fragment_def not_le)
next
  case False
  then show ?thesis
    by (simp add: Let_def kept_row_def)
qed

lemma scan_lines_True_rows:
  "scan_lines True lines =
     map row_record (filter kept_row
       (takeWhile (\<lambda>s. \<not> startswith ''Call graph'' s)
          (filter (\<lambda>s. s \<noteq> []) (map strip lines))))"
proof (induction lines)
  case Nil
  then show ?case by simp
next
  case (Cons line rest)
  show ?case unfolding scan_lines_True_step using Cons.IH by simp
qed

lemma scan_lines_False_step:
  "scan_lines False (line # rest) =
     (if strip line = [] then scan_lines False rest
      else if is_header_line (strip line) then scan_lines True rest
      else scan_lines False rest)"
  by (simp add: Let_def is_header_line_def)

lemma scan_lines_rows:
  "scan_lines False lines = map row_record (filter kept_row (data_region lines))"
proof (induction lines)
  case Nil
  then show ?case by (simp add: data_region_def)
next
  case (Cons line rest)
  show ?case
    unfolding scan_lines_False_step
    using Cons.IH by (simp add: data_region_def scan_lines_True_rows)
qed

lemma insert_desc_set: "set (insert_desc x ys) = insert x (set ys)"
  by (induction ys) auto

lemma insert_desc_length: "length (insert_desc x ys) = Suc (length ys)"
  by (induction ys) auto

lemma sorted_by_time_desc_set: "set (sorted_by_time_desc xs) = set xs"
  by (induction xs) (simp_all add: sorted_by_time_desc_def insert_desc_set)

lemma sorted_by_time_desc_length: "length (sorted_by_time_desc xs) = length xs"
  by (induction xs) (simp_all add: sorted_by_time_desc_def insert_desc_length)





lemma parse_gprof_text_the:
  "flat_profile_section content \<noteq> None \<Longrightarrow>
   parse_gprof_text content
     = Some (sorted_by_time_desc (scan_lines False
         (splitlines (the (flat_profile_section content)))))"
  by (auto simp: parse_gprof_text_def)

lemma sample_has_section:
  "flat_profile_section sample_report = Some (the (flat_profile_section sample_report))"
  unfolding sample_report_def by code_simp

lemma sample_lines:
  "splitlines (the (flat_profile_section sample_report))
   = [[], ''% time'', ''5.0 1.0 1.0 null 0 f'', ''12.5 1.5 1.0 500 0 g'',
      ''5.0 2.0 0.5 abc 0 h'']"
  unfolding sample_report_def by code_simp

lemma sample_scan:
  "scan_lines False [[], ''% time'', ''5.0 1.0 1.0 null 0 f'', ''12.5 1.5 1.0 500 0 g'',
      ''5.0 2.0 0.5 abc 0 h'']
   = [\<lparr> name = ''f'', time_percent = Finite 5, cumulative_seconds = Finite 1,
        self_seconds = Finite 1, calls = ''0'' \<rparr>,
      \<lparr> name = ''g'', time_percent = Finite (25 / 2), cumulative_seconds = Finite (3 / 2),
        self_seconds = Finite 1, calls = ''500'' \<rparr>,
      \<lparr> name = ''h'', time_percent = Finite 5, cumulative_seconds = Finite 2,
        self_seconds = Finite (1 / 2), calls = ''abc'' \<rparr>]"
  by code_simp

lemma sample_parse:
  "parse_gprof_text sample_report
   = Some [\<lparr> name = ''g'', time_percent = Finite (25 / 2), cumulative_seconds = Finite (3 / 2),
        self_seconds = Finite 1, calls = ''500'' \<rparr>,
      \<lparr> name = ''f'', time_percent = Finite 5, cumulative_seconds = Finite 1,
        self_seconds = Finite 1, calls = ''0'' \<rparr>,
      \<lparr> name = ''h'', time_percent = Finite 5, cumulative_seconds = Finite 2,
        self_seconds = Finite (1 / 2), calls = ''abc'' \<rparr>]"
proof -
  have "parse_gprof_text sample_report
      = Some (sorted_by_time_desc (scan_lines False
          (splitlines (the (flat_profile_section sample_report)))))"
    using sample_has_section by (intro parse_gprof_text_the) blast
  then show ?thesis
    unfolding sample_lines sample_scan by (simp add: sorted_by_time_desc_def)
qed

text \<open>
  Claim C2, as amended. The entry point returns three distinguishable values: \<open>None\<close> when
  the path does not exist and, equally, when the text has no \<open>Flat profile:\<close> section; the
  empty list when the section has no kept row; a non-empty list otherwise. The two
  absences differ in the diagnostic printed only.
\<close>

theorem parse_gprof_file_outcomes:
  "(fs filename = None \<longrightarrow>
      parse_gprof_file fs filename = ([''Error: '' @ filename @ '' not found''], None))
   \<and> (fs filename = Some content \<and> flat_profile_section content = None \<longrightarrow>
      parse_gprof_file fs filename = ([''No flat profile found in '' @ filename], None))
   \<and> (fs filename = Some content \<and> flat_profile_section content = Some section \<longrightarrow>
      (\<exists>functions. parse_gprof_file fs filename = ([], Some functions)
         \<and> Some functions \<noteq> None
         \<and> (functions = [] \<longleftrightarrow> filter kept_row (data_region (splitlines section)) = [])))
   \<and> ''Error: '' @ filename @ '' not found'' \<noteq> ''No flat profile found in '' @ filename"
proof -
  have "sorted_by_time_desc xs = [] \<longleftrightarrow> xs = []" for xs
    using sorted_by_time_desc_length [of xs] by (metis length_0_conv)
  then show ?thesis
    by (simp add: parse_gprof_file_def parse_gprof_text_def scan_lines_rows)
qed

lemma no_section: "flat_profile_section ''no profile here'' = None"
  by code_simp

theorem parse_gprof_file_outcomes_witness:
  "parse_gprof_file Map.empty ''gmon.txt'' = ([''Error: gmon.txt not found''], None)
   \<and> parse_gprof_file [''gmon.txt'' \<mapsto> ''no profile here''] ''gmon.txt''
       = ([''No flat profile found in gmon.txt''], None)
   \<and> (\<exists>functions. parse_gprof_file [''gmon.txt'' \<mapsto> sample_report] ''gmon.txt''
         = ([], Some functions))"
proof -
  have a: "parse_gprof_file Map.empty ''gmon.txt'' = ([''Error: gmon.txt not found''], None)"
    using parse_gprof_file_outcomes [of Map.empty "''gmon.txt''"] by simp
  have b: "parse_gprof_file [''gmon.txt'' \<mapsto> ''no profile here''] ''gmon.txt''
       = ([''No flat profile found in gmon.txt''], None)"
    using parse_gprof_file_outcomes
      [of "[''gmon.txt'' \<mapsto> ''no profile here'']" "''gmon.txt''" "''no profile here''"]
      no_section
    by simp
  have c: "\<exists>functions. parse_gprof_file [''gmon.txt'' \<mapsto> sample_report] ''gmon.txt''
         = ([], Some functions)"
    using parse_gprof_file_outcomes
      [of "[''gmon.txt'' \<mapsto> sample_report]" "''gmon.txt''" sample_report
          "the (flat_profile_section sample_report)"]
      sample_has_section
    by auto
  show ?thesis by (intro conjI a b c)
qed

text \<open>
  Claim C2 as stated fails: a path that does not exist and a readable text without a
  \<open>Flat profile:\<close> section give the same return value, \<open>None\<close>.
\<close>

theorem parse_gprof_file_same_absence_counterexample:
  "snd (parse_gprof_file Map.empty ''gmon.txt'') = None
   \<and> flat_profile_section ''no profile here'' = None
   \<and> snd (parse_gprof_file [''gmon.txt'' \<mapsto> ''no profile here''] ''gmon.txt'') = None"
  using no_section by (simp add: parse_gprof_file_def parse_gprof_text_def)







text \<open>
  Claim C6, as amended. Every record returned comes from a kept row of at least five
  tokens, and its \<open>calls\<close> field is \<open>0\<close> when token 3 of that row is the placeholder \<open>null\<close>,
  and token 3 itself otherwise, numeric or not.
\<close>

theorem calls_token_or_placeholder:
  assumes "parse_gprof_text content = Some fs" and "r \<in> set fs"
  shows "\<exists>section row. flat_profile_section content = Some section
     \<and> row \<in> set (data_region (splitlines section)) \<and> kept_row row \<and> r = row_record row
     \<and> 5 \<le> length (split_ws row)
     \<and> calls r = (if split_ws row ! 3 = ''null'' then ''0'' else split_ws row ! 3)"
proof -
  from assms(1) obtain sec where s: "flat_profile_section content = Some sec"
    and fs: "fs = sorted_by_time_desc (scan_lines False (splitlines sec))"
    by (auto simp: parse_gprof_text_def split: option.splits)
  have "set fs = set (scan_lines False (splitlines sec))"
    unfolding fs by (rule sorted_by_time_desc_set)
  with assms(2) have "r \<in> set (map row_record (filter kept_row (data_region (splitlines sec))))"
    by (simp only: scan_lines_rows)
  then obtain row where row: "row \<in> set (data_region (splitlines sec))" "kept_row row"
    "r = row_record row"
    by auto
  have "calls (row_record row) = (if split_ws row ! 3 = ''null'' then ''0'' else split_ws row ! 3)"
    by (simp add: row_record_def)
  moreover have "5 \<le> length (split_ws row)" using row(2) by (simp add: kept_row_def)
  ultimately show ?thesis using s row by blast
qed

theorem calls_token_or_placeholder_witness:
  "\<exists>section row. flat_profile_section sample_report = Some section
     \<and> row \<in> set (data_region (splitlines section)) \<and> kept_row row
     \<and> the (parse_gprof_text sample_report) ! 1 = row_record row
     \<and> 5 \<le> length (split_ws row)
     \<and> calls (the (parse_gprof_text sample_report) ! 1)
         = (if split_ws row ! 3 = ''null'' then ''0'' else split_ws row ! 3)"
  using calls_token_or_placeholder
    [of sample_report "the (parse_gprof_text sample_report)"
        "the (parse_gprof_text sample_report) ! 1"]
  by (simp add: sample_parse)

lemma abc_not_float: "py_float ''abc'' = Inl ValueError"
  by code_simp

lemma sample_tokens:
  "split_ws (strip ''5.0 2.0 0.5 abc 0 h'') = [''5.0'', ''2.0'', ''0.5'', ''abc'', ''0'', ''h'']"
  by code_simp

text \<open>
  Claim C6 as stated fails: the last row of the sample report has the token \<open>abc\<close> at
  index 3, which \<open>float\<close> rejects, and its record has \<open>calls = abc\<close>, not \<open>0\<close>.
\<close>

theorem calls_non_numeric_counterexample:
  "splitlines (the (flat_profile_section sample_report)) ! 4 = ''5.0 2.0 0.5 abc 0 h''
   \<and> split_ws (strip ''5.0 2.0 0.5 abc 0 h'') ! 3 = ''abc''
   \<and> py_float ''abc'' = Inl ValueError
   \<and> name (the (parse_gprof_text sample_report) ! 2) = ''h''
   \<and> calls (the (parse_gprof_text sample_report) ! 2) = ''abc''"
  by (simp add: sample_lines sample_tokens abc_not_float sample_parse)

text \<open>
  Claim C7, as amended. On every text with a section the extraction returns a list, the
  sorted records of exactly the kept rows of the data region, one record per kept row:
  the rows after the header line and before a line starting with \<open>Call graph\<close> that are
  no header fragments, have at least five tokens, have three leading tokens that \<open>float\<close>
  accepts, and have neither \<open>time_percent\<close> nor \<open>self_seconds\<close> less than 0. The numeric
  fields of a record are the values \<open>float\<close> gives the first three tokens of its row.
\<close>

theorem extraction_keeps_kept_rows:
  assumes "flat_profile_section content = Some section"
  shows "parse_gprof_text content
      = Some (sorted_by_time_desc
               (map row_record (filter kept_row (data_region (splitlines section)))))
    \<and> length (the (parse_gprof_text content))
      = length (filter kept_row (data_region (splitlines section)))"
  using assms
  by (simp add: parse_gprof_text_def scan_lines_rows sorted_by_time_desc_length)

lemma special_has_section:
  "flat_profile_section special_report = Some (the (flat_profile_section special_report))"
  unfolding special_report_def by code_simp

lemma special_lines:
  "splitlines (the (flat_profile_section special_report))
   = [[], ''% time'', ''inf 1.0 1.0 1 0 a'', ''-0.0 1.0 nan 1 0 b'', ''-0.5 1.0 1.0 1 0 c'']"
  unfolding special_report_def by code_simp

lemma special_scan:
  "scan_lines False
     [[], ''% time'', ''inf 1.0 1.0 1 0 a'', ''-0.0 1.0 nan 1 0 b'', ''-0.5 1.0 1.0 1 0 c'']
   = [\<lparr> name = ''a'', time_percent = PosInf, cumulative_seconds = Finite 1,
        self_seconds = Finite 1, calls = ''1'' \<rparr>,
      \<lparr> name = ''b'', time_percent = Finite 0, cumulative_seconds = Finite 1,
        self_seconds = NaN, calls = ''1'' \<rparr>]"
  by code_simp

lemma special_parse:
  "parse_gprof_text special_report
   = Some [\<lparr> name = ''a'', time_percent = PosInf, cumulative_seconds = Finite 1,
        self_seconds = Finite 1, calls = ''1'' \<rparr>,
      \<lparr> name = ''b'', time_percent = Finite 0, cumulative_seconds = Finite 1,
        self_seconds = NaN, calls = ''1'' \<rparr>]"
proof -
  have "parse_gprof_text special_report
      = Some (sorted_by_time_desc (scan_lines False
          (splitlines (the (flat_profile_section special_report)))))"
    using special_has_section by (intro parse_gprof_text_the) blast
  then show ?thesis
    unfolding special_lines special_scan by (simp add: sorted_by_time_desc_def)
qed

theorem extraction_keeps_kept_rows_witness:
  "flat_profile_section special_report \<noteq> None
   \<and> map name (the (parse_gprof_text special_report)) = [''a'', ''b'']
   \<and> map time_percent (the (parse_gprof_text special_report)) = [PosInf, Finite 0]
   \<and> map self_seconds (the (parse_gprof_text special_report)) = [Finite 1, NaN]
   \<and> length (filter kept_row
         (data_region (splitlines (the (flat_profile_section special_report))))) = 2"
proof -
  have "length (the (parse_gprof_text special_report))
      = length (filter kept_row
          (data_region (splitlines (the (flat_profile_section special_report)))))"
    using extraction_keeps_kept_rows [OF special_has_section] by (elim conjE)
  moreover have "length (the (parse_gprof_text special_report)) = 2"
    by (simp add: special_parse)
  moreover have "flat_profile_section special_report \<noteq> None"
    using special_has_section by blast
  ultimately show ?thesis by (simp add: special_parse)
qed

lemma unkept_has_section:
  "flat_profile_section unkept_report = Some (the (flat_profile_section unkept_report))"
  unfolding unkept_report_def by code_simp

lemma unkept_lines:
  "splitlines (the (flat_profile_section unkept_report))
   = [[], ''4.0 1.0 1.0 10 early'', ''% time'', ''7.0 2.0 1.0 20 rename'',
      ''3.0 bad 1.0 5 f'', ''2.0 3.0 1.0 7 kept'']"
  unfolding unkept_report_def by code_simp

lemma unkept_scan:
  "scan_lines False [[], ''4.0 1.0 1.0 10 early'', ''% time'', ''7.0 2.0 1.0 20 rename'',
      ''3.0 bad 1.0 5 f'', ''2.0 3.0 1.0 7 kept'']
   = [\<lparr> name = ''kept'', time_percent = Finite 2, cumulative_seconds = Finite 3,
        self_seconds = Finite 1, calls = ''7'' \<rparr>]"
  by code_simp

lemma unkept_well_formed:
  "filter (\<lambda>l. 5 \<le> length (split_ws l) \<and> float_ok (split_ws l ! 0) \<and> float_ok (split_ws l ! 2)
               \<and> py_ge (float_val (split_ws l ! 0)) (Finite 0)
               \<and> py_ge (float_val (split_ws l ! 2)) (Finite 0))
     [[], ''4.0 1.0 1.0 10 early'', ''% time'', ''7.0 2.0 1.0 20 rename'',
      ''3.0 bad 1.0 5 f'', ''2.0 3.0 1.0 7 kept'']
   = [''4.0 1.0 1.0 10 early'', ''7.0 2.0 1.0 20 rename'', ''3.0 bad 1.0 5 f'',
      ''2.0 3.0 1.0 7 kept'']"
  by code_simp

text \<open>
  Claim C7 as stated fails: the section below has four rows of at least five tokens with
  \<open>time_percent\<close> and \<open>self_seconds\<close> accepted by \<open>float\<close> and not negative, and the
  extraction returns one record. The row before the header line, the row whose function
  name contains \<open>name\<close>, and the row whose \<open>cumulative_seconds\<close> is no number are dropped.
\<close>

theorem extraction_row_count_counterexample:
  "filter (\<lambda>l. 5 \<le> length (split_ws l) \<and> float_ok (split_ws l ! 0) \<and> float_ok (split_ws l ! 2)
               \<and> py_ge (float_val (split_ws l ! 0)) (Finite 0)
               \<and> py_ge (float_val (split_ws l ! 2)) (Finite 0))
     (splitlines (the (flat_profile_section unkept_report)))
     = [''4.0 1.0 1.0 10 early'', ''7.0 2.0 1.0 20 rename'', ''3.0 bad 1.0 5 f'',
        ''2.0 3.0 1.0 7 kept'']
   \<and> parse_gprof_text unkept_report
     = Some [\<lparr> name = ''kept'', time_percent = Finite 2, cumulative_seconds = Finite 3,
               self_seconds = Finite 1, calls = ''7'' \<rparr>]"
proof -
  have "parse_gprof_text unkept_report
      = Some (sorted_by_time_desc (scan_lines False
          (splitlines (the (flat_profile_section unkept_report)))))"
    using unkept_has_section by (intro parse_gprof_text_the) blast
  then have "parse_gprof_text unkept_report
     = Some [\<lparr> name = ''kept'', time_percent = Finite 2, cumulative_seconds = Finite 3,
               self_seconds = Finite 1, calls = ''7'' \<rparr>]"
    unfolding unkept_lines unkept_scan by (simp add: sorted_by_time_desc_def)
  then show ?thesis
    by (simp only: unkept_lines unkept_well_formed)
qed

end
